theory Spec2Isabelle
  imports Main "HOL-Library.AList"
begin

section \<open>The workflow execution engine\<close>

text \<open>
  A shallow embedding of \<^verbatim>\<open>src/services/workflowExecution.ts\<close>: the helper
  \<^verbatim>\<open>getVariables\<close> and the function \<^verbatim>\<open>executeWorkflowEngine\<close>.

  Conventions of the embedding.
  \<^item> A JavaScript string is a \<open>string\<close>; an optional field is an \<open>option\<close>;
    a test \<^verbatim>\<open>if (s)\<close> on an optional string is \<open>truthy\<close> (defined and not empty)
    and \<^verbatim>\<open>s || ''\<close> is \<open>orEmpty\<close>.
  \<^item> \<^verbatim>\<open>Record<string, string>\<close> objects are given by their own properties: maps (the
    execution context, the outputs of the log) or association lists in property
    order where the order is observable (\<^verbatim>\<open>startInputs\<close> for \<^verbatim>\<open>JSON.stringify\<close>,
    \<^verbatim>\<open>nodeInputs\<close> for \<^verbatim>\<open>Object.entries\<close>). Reading a name that is not an own property
    finds what the object inherits from \<^verbatim>\<open>Object.prototype\<close>: see \<open>contextGet\<close>.
  \<^item> What the engine takes from outside is a parameter, collected in the record
    \<open>Runtime\<close>: the clock \<^verbatim>\<open>Date.now\<close>, \<^verbatim>\<open>JSON.stringify\<close>, the global replacement
    \<^verbatim>\<open>s.replace(new RegExp(p, 'g'), v)\<close> (which raises a \<^verbatim>\<open>SyntaxError\<close> when \<^verbatim>\<open>p\<close> is
    not a regular expression) and the calls that \<^verbatim>\<open>generateContent\<close> makes to the
    model providers.
  \<^item> A value that is thrown is a \<open>Thrown\<close>: \<^verbatim>\<open>null\<close> or \<^verbatim>\<open>undefined\<close>, or another value
    with what reading its \<^verbatim>\<open>message\<close> gives. The function either returns a log or
    throws: its result is a sum, \<open>Inl\<close> what it throws.
  \<^item> The optional callback \<^verbatim>\<open>onNodeStatusUpdate\<close> is an optional argument; a call
    of it may throw. Neither the callback nor the generation call changes the
    arguments of the engine.
  \<^item> Fields the engine never reads (\<^verbatim>\<open>x\<close>, \<^verbatim>\<open>y\<close>, \<^verbatim>\<open>projectId\<close>, ...) are left out of the
    records.
\<close>

subsection \<open>Data model (\<^verbatim>\<open>types\<close>)\<close>

datatype NodeType = Start | Llm | End

record NodeData =
  versionId :: "string option"
  includeSystemPrompt :: "bool option"
  userPromptOverride :: "string option"
  outputVariableName :: "string option"
  outputTemplate :: "string option"

record WorkflowNode =
  node_id :: string
  node_type :: NodeType
  node_name :: string
  node_data :: NodeData

record WorkflowEdge =
  edge_id :: string
  edge_source :: string
  edge_sourceHandle :: string
  edge_target :: string
  edge_targetHandle :: string

datatype Role = User | Model

record ChatMessage =
  msg_id :: string
  msg_role :: Role
  msg_content :: string

text \<open>\<^verbatim>\<open>GenerationConfig\<close> holds floating-point numbers that the engine only passes
  on; it is the type parameter \<open>'g\<close>.\<close>

record 'g PromptVersion =
  ver_id :: string
  ver_systemInstruction :: string
  ver_content :: string
  ver_messages :: "ChatMessage list option"
  ver_model :: string
  ver_config :: 'g

datatype LLMProvider = Gemini | OpenaiCompatible

record LLMConfig =
  cfg_id :: string
  cfg_userId :: string
  cfg_name :: string
  cfg_provider :: LLMProvider
  cfg_apiKey :: "string option"
  cfg_baseUrl :: "string option"
  cfg_modelId :: string
  cfg_isDefault :: "bool option"

datatype AttachmentType = Image | TextFile | Audio | Video

record Attachment =
  att_id :: string
  att_name :: string
  att_type :: AttachmentType
  att_mimeType :: string
  att_data :: string

record TokenUsage =
  inputTokens :: nat
  outputTokens :: nat
  totalTokens :: nat

record LLMResponse =
  res_text :: string
  res_tokenUsage :: TokenUsage

datatype Status = Success | Error

text \<open>The output of a step is \<open>None\<close> when what the engine stores there is not a
  string (the \<^verbatim>\<open>message\<close> of a thrown value that has none).\<close>

record Step =
  step_nodeId :: string
  step_nodeName :: string
  step_status :: Status
  step_output :: "string option"
  step_latency :: int

text \<open>The \<^verbatim>\<open>id\<close> of a log is the text \<^verbatim>\<open>log-\<close> followed by a clock reading;
  \<open>log_id\<close> is that reading.\<close>

record WorkflowRunLog =
  log_id :: int
  log_timestamp :: int
  log_status :: Status
  log_inputs :: "(string \<times> string) list"
  log_outputs :: "string \<rightharpoonup> string"
  log_steps :: "Step list"

subsection \<open>What the engine takes from outside\<close>

text \<open>
  A value read from a \<^verbatim>\<open>Record<string, string>\<close>: a string, or for a name that is not
  an own property of the object the value that \<^verbatim>\<open>Object.prototype\<close> has under that
  name (a function, or for \<^verbatim>\<open>__proto__\<close> the prototype itself).
\<close>

datatype JsValue = Str string | Inherited string

text \<open>
  A value that is thrown: \<^verbatim>\<open>null\<close> or \<^verbatim>\<open>undefined\<close>, or any other value, given by what
  reading its property \<^verbatim>\<open>message\<close> yields (an \<^verbatim>\<open>Error\<close> has a string there; \<open>None\<close> when
  it is not a string).
\<close>

datatype Thrown = Nullish | Value "string option"

text \<open>
  \<^item> \<open>dateNow rt i\<close>: the value of the call of \<^verbatim>\<open>Date.now()\<close> that \<open>i\<close> calls precede.
  \<^item> \<open>jsonStringify rt\<close>: \<^verbatim>\<open>JSON.stringify\<close> on the start inputs.
  \<^item> \<open>regExpReplace rt p s v\<close>: \<^verbatim>\<open>s.replace(new RegExp(p, 'g'), v)\<close>, \<open>Inl\<close> the
    message of the error it raises (a \<^verbatim>\<open>SyntaxError\<close> of the pattern, a \<^verbatim>\<open>TypeError\<close>
    of an inherited function called as replacer).
  \<^item> \<open>generateContent rt k cfg prompt sys conf atts\<close>: the call of \<^verbatim>\<open>generateContent\<close>
    that \<open>k\<close> calls of this run precede (so that it may answer equal requests
    differently), \<open>Inl\<close> what it throws.
\<close>

record 'g Runtime =
  dateNow :: "nat \<Rightarrow> int"
  jsonStringify :: "(string \<times> string) list \<Rightarrow> string"
  regExpReplace :: "string \<Rightarrow> string \<Rightarrow> JsValue \<Rightarrow> string + string"
  generateContent :: "nat \<Rightarrow> LLMConfig option \<Rightarrow> string \<Rightarrow> string \<Rightarrow> 'g
                        \<Rightarrow> Attachment list \<Rightarrow> Thrown + LLMResponse"

text \<open>
  The arguments of \<^verbatim>\<open>executeWorkflowEngine\<close>. The callback, when there is one, is
  given the number of calls of it that precede, the node identifier, the status
  (\<^verbatim>\<open>'running'\<close>, \<^verbatim>\<open>'success'\<close> or \<^verbatim>\<open>'error'\<close>) and the optional output; it returns
  what it throws, \<open>None\<close> when it returns normally.
\<close>

datatype Update = Running | Finished Status

type_synonym Callback = "nat \<Rightarrow> string \<Rightarrow> Update \<Rightarrow> string option \<Rightarrow> Thrown option"

record 'g Args =
  nodes :: "WorkflowNode list"
  edges :: "WorkflowEdge list"
  startInputs :: "(string \<times> string) list"
  attachments :: "Attachment list"
  versions :: "'g PromptVersion list"
  availableAPIs :: "LLMConfig list"
  onNodeStatusUpdate :: "Callback option"

subsection \<open>JavaScript idioms\<close>

definition truthy :: "string option \<Rightarrow> bool" where
  "truthy s = (case s of None \<Rightarrow> False | Some x \<Rightarrow> x \<noteq> [])"

definition orEmpty :: "string option \<Rightarrow> string" where
  "orEmpty s = (case s of None \<Rightarrow> [] | Some x \<Rightarrow> x)"

text \<open>
  The execution context is a plain object: \<^verbatim>\<open>executionContext[k]\<close> is the own
  property \<open>k\<close> if there is one, otherwise what \<^verbatim>\<open>Object.prototype\<close> has under \<open>k\<close>,
  otherwise \<^verbatim>\<open>undefined\<close> (\<open>None\<close>). \<open>objectPrototypeNames\<close> are the properties of
  \<^verbatim>\<open>Object.prototype\<close> in a browser. The assignment \<^verbatim>\<open>executionContext[k] = v\<close>
  creates or changes the own property \<open>k\<close>, except that the inherited \<^verbatim>\<open>__proto__\<close>
  is an accessor whose setter ignores a string.
\<close>

definition objectPrototypeNames :: "string list" where
  "objectPrototypeNames =
     [''constructor'', ''hasOwnProperty'', ''isPrototypeOf'', ''propertyIsEnumerable'',
      ''toLocaleString'', ''toString'', ''valueOf'', ''__proto__'', ''__defineGetter__'',
      ''__defineSetter__'', ''__lookupGetter__'', ''__lookupSetter__'']"

definition contextGet :: "(string \<rightharpoonup> string) \<Rightarrow> string \<Rightarrow> JsValue option" where
  "contextGet ctx k =
     (case ctx k of
        Some x \<Rightarrow> Some (Str x)
      | None \<Rightarrow> if k \<in> set objectPrototypeNames then Some (Inherited k) else None)"

definition contextSet :: "(string \<rightharpoonup> string) \<Rightarrow> string \<Rightarrow> string \<Rightarrow> (string \<rightharpoonup> string)" where
  "contextSet ctx k v = (if k = ''__proto__'' \<and> ctx k = None then ctx else ctx(k \<mapsto> v))"

text \<open>\<^verbatim>\<open>if (x)\<close> and \<^verbatim>\<open>x || ''\<close> on a value read from the context: a function or an
  object is truthy.\<close>

definition truthyValue :: "JsValue option \<Rightarrow> bool" where
  "truthyValue x =
     (case x of None \<Rightarrow> False | Some (Str s) \<Rightarrow> s \<noteq> [] | Some (Inherited n) \<Rightarrow> True)"

definition orEmptyValue :: "JsValue option \<Rightarrow> JsValue" where
  "orEmptyValue x = (case x of None \<Rightarrow> Str [] | Some v \<Rightarrow> v)"

text \<open>\<^verbatim>\<open>xs.findIndex(P)\<close>, with \<open>None\<close> for \<^verbatim>\<open>-1\<close>.\<close>

fun findIndex :: "('a \<Rightarrow> bool) \<Rightarrow> 'a list \<Rightarrow> nat option" where
  "findIndex P [] = None"
| "findIndex P (x # xs) = (if P x then Some 0 else map_option Suc (findIndex P xs))"

text \<open>\<^verbatim>\<open>xs.splice(i, 1)\<close>: the list without its element at index \<open>i\<close>.\<close>

definition splice1 :: "nat \<Rightarrow> 'a list \<Rightarrow> 'a list" where
  "splice1 i xs = take i xs @ drop (Suc i) xs"

text \<open>
  \<^verbatim>\<open>Object.entries\<close> of an object whose properties were created in the order of the
  association list: the keys that are array indices (canonical decimal numerals
  below \<open>2^32 - 1\<close>) come first, in ascending numeric order, then the other
  keys in creation order.
\<close>

definition isDigit :: "char \<Rightarrow> bool" where
  "isDigit c = (c \<in> set ''0123456789'')"

definition decimal :: "string \<Rightarrow> int" where
  "decimal s = foldl (\<lambda>n c. 10 * n + (of_char c - 48)) 0 s"

definition arrayIndex :: "string \<Rightarrow> int option" where
  "arrayIndex s =
     (if s \<noteq> [] \<and> list_all isDigit s \<and> (s = ''0'' \<or> hd s \<noteq> CHR ''0'') \<and> decimal s < 4294967295
      then Some (decimal s) else None)"

definition objectEntries :: "(string \<times> 'v) list \<Rightarrow> (string \<times> 'v) list" where
  "objectEntries al =
     map snd (sort_key fst
       (concat (map (\<lambda>kv. case arrayIndex (fst kv) of None \<Rightarrow> [] | Some i \<Rightarrow> [(i, kv)]) al)))
     @ filter (\<lambda>kv. arrayIndex (fst kv) = None) al"

subsection \<open>\<^verbatim>\<open>getVariables\<close>\<close>

text \<open>
  \<^verbatim>\<open>(text.match(/{{([^}]+)}}/g) || []).map(s => s.replace(/{{|}}/g, ''))\<close>

  \<open>matchAt s\<close> is the match of \<^verbatim>\<open>/{{([^}]+)}}/\<close> at the start of \<open>s\<close>, with the
  text after it: two opening braces, the longest run of characters other than
  \<^verbatim>\<open>}\<close>, which must not be empty, and two closing braces (a shorter run is followed
  by a character of the run, never by \<^verbatim>\<open>}\<close>, so backtracking finds nothing more).
  \<open>matchAll\<close> collects the matches from left to right, as the \<^verbatim>\<open>g\<close> flag does:
  after a match the search goes on behind it, otherwise one character further.
  \<open>stripBraces\<close> is \<^verbatim>\<open>s.replace(/{{|}}/g, '')\<close>.
\<close>

definition matchAt :: "string \<Rightarrow> (string \<times> string) option" where
  "matchAt s =
     (case s of
        a # b # t \<Rightarrow>
          if a = CHR ''{'' \<and> b = CHR ''{'' then
            (let body = takeWhile (\<lambda>c. c \<noteq> CHR ''}'') t;
                 after = dropWhile (\<lambda>c. c \<noteq> CHR ''}'') t
             in if body \<noteq> [] \<and> take 2 after = ''}}''
                then Some (''{{'' @ body @ ''}}'', drop 2 after) else None)
          else None
      | _ \<Rightarrow> None)"

function matchAll :: "string \<Rightarrow> string list" where
  "matchAll [] = []"
| "matchAll (c # cs) =
     (case matchAt (c # cs) of
        Some (m, r) \<Rightarrow> m # matchAll r
      | None \<Rightarrow> matchAll cs)"
  by pat_completeness auto
termination
  by (relation "measure length")
     (auto simp: matchAt_def Let_def split: list.splits if_splits
        intro!: le_imp_less_Suc le_SucI order_trans [OF diff_le_self length_dropWhile_le])

fun stripBraces :: "string \<Rightarrow> string" where
  "stripBraces (a # b # cs) =
     (if (a = CHR ''{'' \<and> b = CHR ''{'') \<or> (a = CHR ''}'' \<and> b = CHR ''}'')
      then stripBraces cs else a # stripBraces (b # cs))"
| "stripBraces cs = cs"

definition getVariables :: "string \<Rightarrow> string list" where
  "getVariables txt = map stripBraces (matchAll txt)"

subsection \<open>The state of a run\<close>

text \<open>
  The local variables of \<^verbatim>\<open>executeWorkflowEngine\<close>: \<^verbatim>\<open>executionContext\<close>,
  \<^verbatim>\<open>processedNodes\<close>, \<^verbatim>\<open>remainingNodes\<close> and \<^verbatim>\<open>runLog\<close>, with the number of clock
  readings and of callback calls made so far, the number of generation calls that
  have returned, and in \<open>raised\<close> what the function throws, once it does. The
  counter \<^verbatim>\<open>iterationLimit\<close> is the argument the loop recurses on.

  The function throws what a callback call outside the \<^verbatim>\<open>try\<close> block throws, and
  the \<^verbatim>\<open>TypeError\<close> of reading \<^verbatim>\<open>err.message\<close> in the \<^verbatim>\<open>catch\<close> block when \<^verbatim>\<open>err\<close> is
  \<^verbatim>\<open>null\<close> or \<^verbatim>\<open>undefined\<close>.
\<close>

datatype Raised = FromCallback Thrown | TypeErrorOnMessage

record State =
  executionContext :: "string \<rightharpoonup> string"
  processedNodes :: "string set"
  remainingNodes :: "WorkflowNode list"
  runLog :: WorkflowRunLog
  clockReads :: nat
  genCalls :: nat
  callbackCalls :: nat
  raised :: "Raised option"

text \<open>The key \<^verbatim>\<open>`_raw_output_${id}`\<close>.\<close>

definition rawKey :: "string \<Rightarrow> string" where
  "rawKey i = ''_raw_output_'' @ i"

text \<open>The source text \<^verbatim>\<open>`{{${k}}}`\<close> of the regular expression for the name \<open>k\<close>.\<close>

definition placeholder :: "string \<Rightarrow> string" where
  "placeholder k = ''{{'' @ k @ ''}}''"

text \<open>\<^verbatim>\<open>edges.find(e => e.target === node.id && e.targetHandle === v)\<close>\<close>

definition findEdge :: "WorkflowEdge list \<Rightarrow> WorkflowNode \<Rightarrow> string \<Rightarrow> WorkflowEdge option" where
  "findEdge es node v = find (\<lambda>e. edge_target e = node_id node \<and> edge_targetHandle e = v) es"

text \<open>\<^verbatim>\<open>versions.find(ver => ver.id === node.data.versionId)\<close>\<close>

definition findVersion :: "'g PromptVersion list \<Rightarrow> WorkflowNode \<Rightarrow> 'g PromptVersion option" where
  "findVersion vs node = find (\<lambda>ver. Some (ver_id ver) = versionId (node_data node)) vs"

subsection \<open>Readiness (lines 50 to 79)\<close>

text \<open>The variables a node requires; the executor of an \<^verbatim>\<open>llm\<close> node computes the
  same list again (lines 100 to 109).\<close>

definition versionVariables :: "'g PromptVersion list \<Rightarrow> WorkflowNode \<Rightarrow> string list" where
  "versionVariables vs node =
     (case findVersion vs node of
        None \<Rightarrow> []
      | Some v \<Rightarrow>
          getVariables (ver_content v) @
          (case ver_messages v of
             None \<Rightarrow> []
           | Some ms \<Rightarrow> concat (map (\<lambda>m. getVariables (msg_content m)) ms)))"

definition requiredVars :: "'g PromptVersion list \<Rightarrow> WorkflowNode \<Rightarrow> string list" where
  "requiredVars vs node =
     (case node_type node of
        Llm \<Rightarrow>
          (if truthy (userPromptOverride (node_data node))
           then getVariables (orEmpty (userPromptOverride (node_data node)))
           else versionVariables vs node)
      | End \<Rightarrow> getVariables (orEmpty (outputTemplate (node_data node)))
      | Start \<Rightarrow> [])"

text \<open>Lines 73 to 77. The test \<^verbatim>\<open>executionContext[v] !== undefined\<close> also holds for a
  name that the context inherits.\<close>

definition varAvailable :: "'g Args \<Rightarrow> State \<Rightarrow> WorkflowNode \<Rightarrow> string \<Rightarrow> bool" where
  "varAvailable a st node v =
     (if contextGet (executionContext st) v \<noteq> None then True
      else (case findEdge (edges a) node v of
              None \<Rightarrow> False
            | Some edge \<Rightarrow> edge_source edge \<in> processedNodes st))"

definition isReady :: "'g Args \<Rightarrow> State \<Rightarrow> WorkflowNode \<Rightarrow> bool" where
  "isReady a st node =
     (let required = requiredVars (versions a) node
      in if required = [] then True
         else list_all (varAvailable a st node) required)"

definition readyNodeIndex :: "'g Args \<Rightarrow> State \<Rightarrow> nat option" where
  "readyNodeIndex a st = findIndex (isReady a st) (remainingNodes st)"

subsection \<open>Executing a node (the \<^verbatim>\<open>try\<close> block, lines 95 to 180)\<close>

text \<open>The value that an \<^verbatim>\<open>llm\<close> node stores in \<^verbatim>\<open>nodeInputs[v]\<close> (lines 113 to 132),
  \<open>None\<close> where nothing is stored.\<close>

definition llmInput :: "'g Args \<Rightarrow> (string \<rightharpoonup> string) \<Rightarrow> WorkflowNode \<Rightarrow> string \<Rightarrow> JsValue option" where
  "llmInput a ctx node v =
     (case contextGet ctx v of
        Some x \<Rightarrow> Some x
      | None \<Rightarrow>
          (case findEdge (edges a) node v of
             None \<Rightarrow> None
           | Some edge \<Rightarrow>
               (case find (\<lambda>n. node_id n = edge_source edge) (nodes a) of
                  None \<Rightarrow> None
                | Some sourceNode \<Rightarrow>
                    (case node_type sourceNode of
                       Start \<Rightarrow> Some (orEmptyValue (contextGet ctx v))
                     | Llm \<Rightarrow>
                         (let outVar = outputVariableName (node_data sourceNode)
                          in if truthy outVar \<and> truthyValue (contextGet ctx (orEmpty outVar))
                             then contextGet ctx (orEmpty outVar)
                             else Some (orEmptyValue (contextGet ctx (rawKey (node_id sourceNode)))))
                     | End \<Rightarrow> None))))"

text \<open>The object \<^verbatim>\<open>nodeInputs\<close> after line 133, as the list of its own properties in
  creation order. It is a plain object too: the assignment to \<^verbatim>\<open>__proto__\<close> creates
  no property.\<close>

definition nodeInputs :: "'g Args \<Rightarrow> (string \<rightharpoonup> string) \<Rightarrow> WorkflowNode \<Rightarrow> string list
    \<Rightarrow> (string \<times> JsValue) list" where
  "nodeInputs a ctx node vars =
     foldl (\<lambda>inputs v. case llmInput a ctx node v of
                          None \<Rightarrow> inputs
                        | Some x \<Rightarrow>
                            if v = ''__proto__'' then inputs else AList.update v x inputs) [] vars"

text \<open>Lines 140 to 142: one global replacement for each entry, in order; the first
  error ends it.\<close>

fun substitute :: "'g Runtime \<Rightarrow> (string \<times> JsValue) list \<Rightarrow> string \<Rightarrow> string + string" where
  "substitute rt [] promptContent = Inr promptContent"
| "substitute rt ((k, val) # es) promptContent =
     (case regExpReplace rt (placeholder k) promptContent val of
        Inl err \<Rightarrow> Inl err
      | Inr promptContent' \<Rightarrow> substitute rt es promptContent')"

text \<open>Line 144: \<^verbatim>\<open>availableAPIs.find(a => a.id === version.model) || availableAPIs[0]\<close>,
  \<open>None\<close> for \<^verbatim>\<open>undefined\<close>.\<close>

definition modelConfig :: "LLMConfig list \<Rightarrow> 'g PromptVersion \<Rightarrow> LLMConfig option" where
  "modelConfig apis version =
     (case find (\<lambda>a. cfg_id a = ver_model version) apis of
        Some a \<Rightarrow> Some a
      | None \<Rightarrow> (case apis of [] \<Rightarrow> None | a # _ \<Rightarrow> Some a))"

text \<open>The value an \<^verbatim>\<open>end\<close> node replaces the placeholder \<open>v\<close> by (lines 165 to 175),
  \<open>None\<close> where the template is left as it is.\<close>

definition endValue :: "'g Args \<Rightarrow> (string \<rightharpoonup> string) \<Rightarrow> WorkflowNode \<Rightarrow> string \<Rightarrow> JsValue option" where
  "endValue a ctx node v =
     (case contextGet ctx v of
        Some x \<Rightarrow> Some x
      | None \<Rightarrow>
          (case findEdge (edges a) node v of
             None \<Rightarrow> None
           | Some edge \<Rightarrow>
               (case find (\<lambda>n. node_id n = edge_source edge) (nodes a) of
                  None \<Rightarrow> None
                | Some sourceNode \<Rightarrow>
                    Some (orEmptyValue (contextGet ctx (rawKey (node_id sourceNode)))))))"

fun fillTemplate :: "'g Runtime \<Rightarrow> 'g Args \<Rightarrow> (string \<rightharpoonup> string) \<Rightarrow> WorkflowNode
    \<Rightarrow> string list \<Rightarrow> string \<Rightarrow> string + string" where
  "fillTemplate rt a ctx node [] template = Inr template"
| "fillTemplate rt a ctx node (v # vars) template =
     (case endValue a ctx node v of
        None \<Rightarrow> fillTemplate rt a ctx node vars template
      | Some val \<Rightarrow>
          (case regExpReplace rt (placeholder v) template val of
             Inl err \<Rightarrow> Inl err
           | Inr template' \<Rightarrow> fillTemplate rt a ctx node vars template'))"

text \<open>What lines 96 to 180 leave behind when they do not throw: the output of the
  node, the execution context, the outputs of the log and the number of generation
  calls. When they throw, they have changed nothing; \<open>Inl\<close> is what they throw: the
  error of line 137, the error of a replacement, or what the generation call
  throws.\<close>

record Executed =
  ex_output :: string
  ex_context :: "string \<rightharpoonup> string"
  ex_outputs :: "string \<rightharpoonup> string"
  ex_genCalls :: nat

definition executeLlm :: "'g Runtime \<Rightarrow> 'g Args \<Rightarrow> State \<Rightarrow> WorkflowNode \<Rightarrow> Thrown + Executed" where
  "executeLlm rt a st node =
     (let ctx = executionContext st;
          vars = requiredVars (versions a) node;
          inputs = nodeInputs a ctx node vars
      in case findVersion (versions a) node of
           None \<Rightarrow> Inl (Value (Some ''Ref version not found''))
         | Some version \<Rightarrow>
             (case substitute rt (objectEntries inputs)
                     (if truthy (userPromptOverride (node_data node))
                      then orEmpty (userPromptOverride (node_data node))
                      else ver_content version) of
                Inl err \<Rightarrow> Inl (Value (Some err))
              | Inr promptContent \<Rightarrow>
                  (let config = modelConfig (availableAPIs a) version;
                       systemInstr = (if includeSystemPrompt (node_data node) \<noteq> Some False
                                      then ver_systemInstruction version else [])
                   in case generateContent rt (genCalls st) config promptContent systemInstr
                             (ver_config version) (attachments a) of
                        Inl thrown \<Rightarrow> Inl thrown
                      | Inr res \<Rightarrow>
                          (let output = res_text res;
                               ctx1 = (if truthy (outputVariableName (node_data node))
                                       then contextSet ctx
                                              (orEmpty (outputVariableName (node_data node))) output
                                       else ctx)
                           in Inr \<lparr>ex_output = output,
                                   ex_context = contextSet ctx1 (rawKey (node_id node)) output,
                                   ex_outputs = log_outputs (runLog st),
                                   ex_genCalls = Suc (genCalls st)\<rparr>))))"

definition executeEnd :: "'g Runtime \<Rightarrow> 'g Args \<Rightarrow> State \<Rightarrow> WorkflowNode \<Rightarrow> Thrown + Executed" where
  "executeEnd rt a st node =
     (let template = orEmpty (outputTemplate (node_data node));
          vars = getVariables template
      in case fillTemplate rt a (executionContext st) node vars template of
           Inl err \<Rightarrow> Inl (Value (Some err))
         | Inr output \<Rightarrow>
             Inr \<lparr>ex_output = output,
                  ex_context = executionContext st,
                  ex_outputs = (log_outputs (runLog st))(''final'' \<mapsto> output),
                  ex_genCalls = genCalls st\<rparr>)"

definition executeNode :: "'g Runtime \<Rightarrow> 'g Args \<Rightarrow> State \<Rightarrow> WorkflowNode \<Rightarrow> Thrown + Executed" where
  "executeNode rt a st node =
     (case node_type node of
        Llm \<Rightarrow> executeLlm rt a st node
      | End \<Rightarrow> executeEnd rt a st node
      | Start \<Rightarrow> Inr \<lparr>ex_output = [], ex_context = executionContext st,
                      ex_outputs = log_outputs (runLog st), ex_genCalls = genCalls st\<rparr>)"

subsection \<open>The callback\<close>

text \<open>
  \<^verbatim>\<open>if (onNodeStatusUpdate) onNodeStatusUpdate(nodeId, status, output)\<close> when \<open>calls\<close>
  calls of the callback precede: \<open>notify\<close> is what the call throws (\<open>None\<close> when
  there is no callback or the call returns), \<open>notified\<close> the number of calls after
  it.
\<close>

definition notify :: "'g Args \<Rightarrow> nat \<Rightarrow> string \<Rightarrow> Update \<Rightarrow> string option \<Rightarrow> Thrown option" where
  "notify a calls nodeId status output =
     (case onNodeStatusUpdate a of
        None \<Rightarrow> None
      | Some callback \<Rightarrow> callback calls nodeId status output)"

definition notified :: "'g Args \<Rightarrow> nat \<Rightarrow> nat" where
  "notified a calls = (case onNodeStatusUpdate a of None \<Rightarrow> calls | Some callback \<Rightarrow> Suc calls)"

subsection \<open>The execution loop (lines 46 to 196)\<close>

datatype Flow = Break State | Continue State

definition successStep :: "WorkflowNode \<Rightarrow> string \<Rightarrow> int \<Rightarrow> Step" where
  "successStep node output latency =
     \<lparr>step_nodeId = node_id node, step_nodeName = node_name node, step_status = Success,
      step_output = Some output, step_latency = latency\<rparr>"

definition errorStep :: "WorkflowNode \<Rightarrow> string option \<Rightarrow> int \<Rightarrow> Step" where
  "errorStep node message latency =
     \<lparr>step_nodeId = node_id node, step_nodeName = node_name node, step_status = Error,
      step_output = message, step_latency = latency\<rparr>"

definition pushStep :: "Step \<Rightarrow> WorkflowRunLog \<Rightarrow> WorkflowRunLog" where
  "pushStep s log = log\<lparr>log_steps := log_steps log @ [s]\<rparr>"

text \<open>
  The \<^verbatim>\<open>catch\<close> block (lines 188 to 195) entered in the state \<open>st\<close> with the thrown
  value \<open>err\<close>. The callback is called first: what it throws leaves the function,
  and the log is as it was. Then the status is set. Then the step is built: reading
  \<^verbatim>\<open>err.message\<close> of \<^verbatim>\<open>null\<close> or \<^verbatim>\<open>undefined\<close> is a \<^verbatim>\<open>TypeError\<close> that leaves the function
  before the clock is read and the step is pushed.
\<close>

definition catchBlock :: "'g Runtime \<Rightarrow> 'g Args \<Rightarrow> State \<Rightarrow> WorkflowNode \<Rightarrow> int \<Rightarrow> Thrown \<Rightarrow> State" where
  "catchBlock rt a st node startTime err =
     (case notify a (callbackCalls st) (node_id node) (Finished Error) None of
        Some thrown \<Rightarrow>
          st\<lparr>callbackCalls := notified a (callbackCalls st),
             raised := Some (FromCallback thrown)\<rparr>
      | None \<Rightarrow>
          (case err of
             Nullish \<Rightarrow>
               st\<lparr>runLog := (runLog st)\<lparr>log_status := Error\<rparr>,
                  callbackCalls := notified a (callbackCalls st),
                  raised := Some TypeErrorOnMessage\<rparr>
           | Value message \<Rightarrow>
               st\<lparr>runLog := pushStep (errorStep node message (dateNow rt (clockReads st) - startTime))
                              ((runLog st)\<lparr>log_status := Error\<rparr>),
                  clockReads := Suc (clockReads st),
                  callbackCalls := notified a (callbackCalls st)\<rparr>))"

text \<open>
  One pass through the body of the \<^verbatim>\<open>while\<close> loop. \<open>Break\<close> is the state in which
  the loop is left (no ready node, the \<^verbatim>\<open>catch\<close> block, or a callback that throws
  outside the \<^verbatim>\<open>try\<close> block), \<open>Continue\<close> the state in which the next pass starts.

  The callback of line 182 is inside the \<^verbatim>\<open>try\<close> block: what it throws is caught,
  after the node has changed the context and the outputs.
\<close>

definition iteration :: "'g Runtime \<Rightarrow> 'g Args \<Rightarrow> State \<Rightarrow> Flow" where
  "iteration rt a st =
     (case readyNodeIndex a st of
        None \<Rightarrow> Break st
      | Some i \<Rightarrow>
          (let node = remainingNodes st ! i;
               st1 = st\<lparr>remainingNodes := splice1 i (remainingNodes st)\<rparr>
           in case notify a (callbackCalls st1) (node_id node) Running None of
                Some thrown \<Rightarrow>
                  Break (st1\<lparr>callbackCalls := notified a (callbackCalls st1),
                             raised := Some (FromCallback thrown)\<rparr>)
              | None \<Rightarrow>
                  (let startTime = dateNow rt (clockReads st1);
                       st2 = st1\<lparr>clockReads := Suc (clockReads st1),
                                 callbackCalls := notified a (callbackCalls st1)\<rparr>
                   in case executeNode rt a st2 node of
                        Inl err \<Rightarrow> Break (catchBlock rt a st2 node startTime err)
                      | Inr ex \<Rightarrow>
                          (let st3 = st2\<lparr>executionContext := ex_context ex,
                                         runLog := (runLog st2)\<lparr>log_outputs := ex_outputs ex\<rparr>,
                                         genCalls := ex_genCalls ex\<rparr>
                           in case notify a (callbackCalls st3) (node_id node) (Finished Success)
                                     (Some (ex_output ex)) of
                                Some thrown \<Rightarrow>
                                  Break (catchBlock rt a
                                           (st3\<lparr>callbackCalls := notified a (callbackCalls st3)\<rparr>)
                                           node startTime thrown)
                              | None \<Rightarrow>
                                  Continue
                                    (st3\<lparr>processedNodes := insert (node_id node) (processedNodes st3),
                                         runLog := pushStep
                                           (successStep node (ex_output ex)
                                              (dateNow rt (clockReads st3) - startTime))
                                           (runLog st3),
                                         clockReads := Suc (clockReads st3),
                                         callbackCalls := notified a (callbackCalls st3)\<rparr>)))))"

text \<open>\<^verbatim>\<open>while (remainingNodes.length > 0 && iterationLimit > 0) { iterationLimit--; ... }\<close>\<close>

fun loop :: "'g Runtime \<Rightarrow> 'g Args \<Rightarrow> nat \<Rightarrow> State \<Rightarrow> State" where
  "loop rt a 0 st = st"
| "loop rt a (Suc iterationLimit) st =
     (if remainingNodes st = [] then st
      else (case iteration rt a st of
              Break st' \<Rightarrow> st'
            | Continue st' \<Rightarrow> loop rt a iterationLimit st'))"

text \<open>Lines 20 to 43: the state in which the loop starts. When the callback of line
  37 throws, the function ends there, without a list of pending nodes.\<close>

definition initialState :: "'g Runtime \<Rightarrow> 'g Args \<Rightarrow> State" where
  "initialState rt a =
     (let log = \<lparr>log_id = dateNow rt 0, log_timestamp = dateNow rt 1, log_status = Success,
                    log_inputs = startInputs a, log_outputs = Map.empty, log_steps = []\<rparr>;
          st = \<lparr>executionContext = map_of (startInputs a),
                processedNodes = {},
                remainingNodes = filter (\<lambda>n. node_type n \<noteq> Start) (nodes a),
                runLog = log, clockReads = 2, genCalls = 0, callbackCalls = 0, raised = None\<rparr>
      in case find (\<lambda>n. node_type n = Start) (nodes a) of
           None \<Rightarrow> st
         | Some startNode \<Rightarrow>
             (case notify a 0 (node_id startNode) (Finished Success)
                     (Some (jsonStringify rt (startInputs a))) of
                Some thrown \<Rightarrow>
                  st\<lparr>remainingNodes := [], callbackCalls := notified a 0,
                     raised := Some (FromCallback thrown)\<rparr>
              | None \<Rightarrow>
                  st\<lparr>processedNodes := {node_id startNode},
                     runLog := pushStep
                       (successStep startNode (jsonStringify rt (startInputs a)) 0) log,
                     callbackCalls := notified a 0\<rparr>))"

text \<open>The state in which the function ends, and its result: the log, or what it
  throws.\<close>

definition finalState :: "'g Runtime \<Rightarrow> 'g Args \<Rightarrow> State" where
  "finalState rt a =
     (let st = initialState rt a
      in if raised st = None then loop rt a 100 st else st)"

definition executeWorkflowEngine :: "'g Runtime \<Rightarrow> 'g Args \<Rightarrow> Raised + WorkflowRunLog" where
  "executeWorkflowEngine rt a =
     (case raised (finalState rt a) of
        None \<Rightarrow> Inr (runLog (finalState rt a))
      | Some thrown \<Rightarrow> Inl thrown)"

subsection \<open>Templates and literal replacement\<close>

text \<open>
  \<open>literalReplace p s v\<close> replaces the occurrences of the text \<open>p\<close> in \<open>s\<close>, from
  left to right and without overlap, by \<open>v\<close>. It is what
  \<^verbatim>\<open>s.replace(new RegExp(p, 'g'), v)\<close> computes when \<open>p\<close> is \<open>placeholder k\<close> for a
  name \<open>k\<close> without characters of the syntax of regular expressions and not
  starting with a digit (\<^verbatim>\<open>{{1}}\<close> is the character \<^verbatim>\<open>{\<close> with the quantifier \<^verbatim>\<open>{1}\<close>),
  and \<open>v\<close> is a string without \<^verbatim>\<open>$\<close> (which starts a replacement pattern such as
  \<^verbatim>\<open>$&\<close>). \<open>literalOnPlain rt\<close> says that the replacement of the runtime \<open>rt\<close> is this
  one on such names and values.
\<close>

function literalReplace :: "string \<Rightarrow> string \<Rightarrow> string \<Rightarrow> string" where
  "literalReplace p [] v = []"
| "literalReplace p (c # cs) v =
     (if p \<noteq> [] \<and> take (length p) (c # cs) = p
      then v @ literalReplace p (drop (length p) (c # cs)) v
      else c # literalReplace p cs v)"
  by pat_completeness auto
termination
  by (relation "measure (\<lambda>(p, s, v). length s)") auto

definition regExpSyntax :: "char list" where
  "regExpSyntax = CHR 0x5C # ''^$.|?*+()[]{}''"

definition plainName :: "string \<Rightarrow> bool" where
  "plainName k = (k \<noteq> [] \<and> \<not> isDigit (hd k) \<and> list_all (\<lambda>c. c \<notin> set regExpSyntax) k)"

definition literalOnPlain :: "'g Runtime \<Rightarrow> bool" where
  "literalOnPlain rt =
     (\<forall>k s v. plainName k \<and> CHR ''$'' \<notin> set v \<longrightarrow>
        regExpReplace rt (placeholder k) s (Str v) = Inr (literalReplace (placeholder k) s v))"

text \<open>
  A template given by its pieces: literal text and placeholders. \<open>render\<close> is its
  text. The pieces are those that the engine finds when
  \<^item> a piece of literal text has no two opening braces in a row and does not end
    with an opening brace (\<open>plainText\<close>), and
  \<^item> a name is not empty, has no closing brace and no two opening braces in a row
    (\<open>isName\<close>).

  A value that takes the place of a placeholder becomes literal text: it is
  \<open>plainValue\<close> when it is \<open>plainText\<close> and has no \<^verbatim>\<open>$\<close>.
\<close>

fun plainText :: "string \<Rightarrow> bool" where
  "plainText [] = True"
| "plainText [c] = (c \<noteq> CHR ''{'')"
| "plainText (c # d # s) = (\<not> (c = CHR ''{'' \<and> d = CHR ''{'') \<and> plainText (d # s))"

fun noOpening :: "string \<Rightarrow> bool" where
  "noOpening (c # d # s) = (\<not> (c = CHR ''{'' \<and> d = CHR ''{'') \<and> noOpening (d # s))"
| "noOpening s = True"

definition plainValue :: "string \<Rightarrow> bool" where
  "plainValue v = (CHR ''$'' \<notin> set v \<and> plainText v)"

datatype Piece = Text string | Var string

fun renderPiece :: "Piece \<Rightarrow> string" where
  "renderPiece (Text s) = s"
| "renderPiece (Var n) = placeholder n"

definition render :: "Piece list \<Rightarrow> string" where
  "render ps = concat (map renderPiece ps)"

fun varNames :: "Piece list \<Rightarrow> string list" where
  "varNames [] = []"
| "varNames (Text s # ps) = varNames ps"
| "varNames (Var n # ps) = n # varNames ps"

definition isName :: "string \<Rightarrow> bool" where
  "isName n = (n \<noteq> [] \<and> CHR ''}'' \<notin> set n \<and> noOpening n)"

fun wellFormedPiece :: "Piece \<Rightarrow> bool" where
  "wellFormedPiece (Text s) = plainText s"
| "wellFormedPiece (Var n) = isName n"

definition wellFormed :: "Piece list \<Rightarrow> bool" where
  "wellFormed ps = list_all wellFormedPiece ps"

text \<open>The template with every placeholder that \<open>val\<close> gives a value replaced by that
  value, and the other placeholders as they are; and the string that an \<^verbatim>\<open>end\<close> node
  replaces a placeholder by, when it is a string.\<close>

definition endText :: "'g Args \<Rightarrow> (string \<rightharpoonup> string) \<Rightarrow> WorkflowNode \<Rightarrow> string \<Rightarrow> string option" where
  "endText a ctx node v =
     (case endValue a ctx node v of
        None \<Rightarrow> None
      | Some (Str s) \<Rightarrow> Some s
      | Some (Inherited n) \<Rightarrow> None)"

fun fillPiece :: "(string \<Rightarrow> string option) \<Rightarrow> Piece \<Rightarrow> string" where
  "fillPiece val (Text s) = s"
| "fillPiece val (Var n) = (case val n of None \<Rightarrow> placeholder n | Some x \<Rightarrow> x)"

definition filled :: "(string \<Rightarrow> string option) \<Rightarrow> Piece list \<Rightarrow> string" where
  "filled val ps = concat (map (fillPiece val) ps)"

subsection \<open>The passes of the loop\<close>

text \<open>
  \<open>runState rt a j\<close> is the state of the run after \<open>j\<close> passes through the body of
  the loop that ended without \<^verbatim>\<open>break\<close>, and \<open>None\<close> when the function ends before.
  The pass after it starts with \<^verbatim>\<open>iterationLimit\<close> equal to \<open>100 - j\<close>.
\<close>

fun runState :: "'g Runtime \<Rightarrow> 'g Args \<Rightarrow> nat \<Rightarrow> State option" where
  "runState rt a 0 =
     (if raised (initialState rt a) = None then Some (initialState rt a) else None)"
| "runState rt a (Suc j) =
     (case runState rt a j of
        None \<Rightarrow> None
      | Some st \<Rightarrow>
          if j < 100 \<and> remainingNodes st \<noteq> []
          then (case iteration rt a st of Break st' \<Rightarrow> None | Continue st' \<Rightarrow> Some st')
          else None)"

text \<open>The state in which a pass through the loop ends.\<close>

fun flowState :: "Flow \<Rightarrow> State" where
  "flowState (Break st) = st"
| "flowState (Continue st) = st"

subsection \<open>The scenario of the specification\<close>

text \<open>
  An entry node, the generation node \<^verbatim>\<open>g1\<close> with the template
  \<^verbatim>\<open>Summarize: {{topic}}\<close> and the output variable \<^verbatim>\<open>summary\<close>, an exit node with the
  template \<^verbatim>\<open>Result: {{summary}}\<close>, the edges from the entry node to \<^verbatim>\<open>g1\<close> on
  \<^verbatim>\<open>topic\<close> and from \<^verbatim>\<open>g1\<close> to the exit node on \<^verbatim>\<open>summary\<close>, and the start input
  \<^verbatim>\<open>topic = oceans\<close>. In \<open>oceansRuntime\<close> every generation call returns the same
  text, in \<open>failingRuntime\<close> every generation call throws an error with the message
  \<^verbatim>\<open>rate limited\<close>, in \<open>nullRuntime\<close> it throws \<^verbatim>\<open>null\<close>.
\<close>

definition noData :: NodeData where
  "noData = \<lparr>versionId = None, includeSystemPrompt = None, userPromptOverride = None,
             outputVariableName = None, outputTemplate = None\<rparr>"

definition entryNode :: WorkflowNode where
  "entryNode = \<lparr>node_id = ''start'', node_type = Start, node_name = ''Entry'', node_data = noData\<rparr>"

definition generateNode :: WorkflowNode where
  "generateNode = \<lparr>node_id = ''g1'', node_type = Llm, node_name = ''Generate'',
     node_data = noData\<lparr>versionId := Some ''v1'', outputVariableName := Some ''summary''\<rparr>\<rparr>"

definition exitNode :: "string \<Rightarrow> WorkflowNode" where
  "exitNode template = \<lparr>node_id = ''end'', node_type = End, node_name = ''Exit'',
     node_data = noData\<lparr>outputTemplate := Some template\<rparr>\<rparr>"

definition summarizeVersion :: "unit PromptVersion" where
  "summarizeVersion = \<lparr>ver_id = ''v1'', ver_systemInstruction = ''Be brief.'',
     ver_content = ''Summarize: {{topic}}'', ver_messages = None, ver_model = ''gemini'',
     ver_config = ()\<rparr>"

definition bind :: "string \<Rightarrow> string \<Rightarrow> string \<Rightarrow> WorkflowEdge" where
  "bind source target handle = \<lparr>edge_id = source @ ''-'' @ target, edge_source = source,
     edge_sourceHandle = ''output'', edge_target = target, edge_targetHandle = handle\<rparr>"

definition oceansArgs :: "unit Args" where
  "oceansArgs = \<lparr>nodes = [entryNode, generateNode, exitNode ''Result: {{summary}}''],
     edges = [bind ''start'' ''g1'' ''topic'', bind ''g1'' ''end'' ''summary''],
     startInputs = [(''topic'', ''oceans'')], attachments = [],
     versions = [summarizeVersion], availableAPIs = [], onNodeStatusUpdate = None\<rparr>"

definition response :: "string \<Rightarrow> LLMResponse" where
  "response t = \<lparr>res_text = t,
     res_tokenUsage = \<lparr>inputTokens = 0, outputTokens = 0, totalTokens = 0\<rparr>\<rparr>"

text \<open>\<^verbatim>\<open>JSON.stringify\<close> on an object whose names and values need no escaping and
  whose names are not array indices.\<close>

fun commaSeparated :: "string list \<Rightarrow> string" where
  "commaSeparated [] = []"
| "commaSeparated [x] = x"
| "commaSeparated (x # y # zs) = x @ '','' @ commaSeparated (y # zs)"

definition quoted :: "string \<Rightarrow> string" where
  "quoted s = CHR 0x22 # s @ [CHR 0x22]"

definition plainJson :: "(string \<times> string) list \<Rightarrow> string" where
  "plainJson kvs =
     ''{'' @ commaSeparated (map (\<lambda>kv. quoted (fst kv) @ '':'' @ quoted (snd kv)) kvs) @ ''}''"

text \<open>
  The replacement of the scenario. By a string it is the literal one. A function
  that the context inherits from \<^verbatim>\<open>Object.prototype\<close> is called on every match,
  with \<^verbatim>\<open>undefined\<close> for \<^verbatim>\<open>this\<close>: \<^verbatim>\<open>constructor\<close> returns the match, \<^verbatim>\<open>toString\<close> the
  text \<^verbatim>\<open>[object Undefined]\<close>, \<^verbatim>\<open>isPrototypeOf\<close> the value \<^verbatim>\<open>false\<close>, and the others
  throw a \<^verbatim>\<open>TypeError\<close>. The value of \<^verbatim>\<open>__proto__\<close> is the prototype, an object whose
  text is \<^verbatim>\<open>[object Object]\<close>.
\<close>

fun occurs :: "string \<Rightarrow> string \<Rightarrow> bool" where
  "occurs p [] = (p = [])"
| "occurs p (c # cs) = (take (length p) (c # cs) = p \<or> occurs p cs)"

definition replaceBy :: "string \<Rightarrow> string \<Rightarrow> JsValue \<Rightarrow> string + string" where
  "replaceBy p s v =
     (case v of
        Str x \<Rightarrow> Inr (literalReplace p s x)
      | Inherited n \<Rightarrow>
          if n = ''constructor'' then Inr s
          else if n = ''toString'' then Inr (literalReplace p s ''[object Undefined]'')
          else if n = ''isPrototypeOf'' then Inr (literalReplace p s ''false'')
          else if n = ''__proto__'' then Inr (literalReplace p s ''[object Object]'')
          else if occurs p s then Inl ''Cannot convert undefined or null to object''
          else Inr s)"

definition oceansRuntime :: "unit Runtime" where
  "oceansRuntime = \<lparr>dateNow = int, jsonStringify = plainJson,
     regExpReplace = replaceBy,
     generateContent = (\<lambda>k cfg prompt sys conf atts. Inr (response ''Oceans cover 70% of Earth.''))\<rparr>"

definition failingRuntime :: "unit Runtime" where
  "failingRuntime = oceansRuntime\<lparr>generateContent :=
     (\<lambda>k cfg prompt sys conf atts. Inl (Value (Some ''rate limited'')))\<rparr>"

definition nullRuntime :: "unit Runtime" where
  "nullRuntime = oceansRuntime\<lparr>generateContent :=
     (\<lambda>k cfg prompt sys conf atts. Inl Nullish)\<rparr>"

text \<open>The scenario with a callback that always returns, and with a callback that
  throws when it is told that a node is running.\<close>

definition watchedArgs :: "unit Args" where
  "watchedArgs = oceansArgs\<lparr>onNodeStatusUpdate := Some (\<lambda>calls nodeId status output. None)\<rparr>"

definition interruptedArgs :: "unit Args" where
  "interruptedArgs = oceansArgs\<lparr>onNodeStatusUpdate :=
     Some (\<lambda>calls nodeId status output.
             if status = Running then Some (Value (Some ''no view'')) else None)\<rparr>"

text \<open>The scenario without the generation node: nothing produces \<^verbatim>\<open>summary\<close>.\<close>

definition stuckArgs :: "unit Args" where
  "stuckArgs = oceansArgs\<lparr>nodes := [entryNode, exitNode ''Result: {{summary}}''], edges := []\<rparr>"

text \<open>
  Two steps between \<open>render\<close> and \<open>filled\<close>: the template in which every placeholder
  of the name \<open>k\<close> is replaced by the text \<open>v\<close>, and the template in which the
  placeholders of the names in \<open>vs\<close> that \<open>val\<close> gives a value are replaced by that
  value.
\<close>

fun replacePiece :: "string \<Rightarrow> string \<Rightarrow> Piece \<Rightarrow> Piece" where
  "replacePiece k v (Text s) = Text s"
| "replacePiece k v (Var n) = (if n = k then Text v else Var n)"

fun fillKnown :: "(string \<Rightarrow> string option) \<Rightarrow> string list \<Rightarrow> Piece \<Rightarrow> Piece" where
  "fillKnown val vs (Text s) = Text s"
| "fillKnown val vs (Var n) =
     (if n \<in> set vs then (case val n of None \<Rightarrow> Var n | Some x \<Rightarrow> Text x) else Var n)"

text \<open>A prompt version with two occurrences of \<^verbatim>\<open>a\<close> in its content and a message
  that names \<^verbatim>\<open>a\<close> and \<^verbatim>\<open>b\<close>.\<close>

definition chatVersion :: "unit PromptVersion" where
  "chatVersion = summarizeVersion\<lparr>ver_content := ''Compare {{a}} with {{a}}'',
     ver_messages := Some [\<lparr>msg_id = ''m1'', msg_role = User,
                             msg_content = ''Also {{a}} and {{b}}''\<rparr>]\<rparr>"

text \<open>The entry node and an exit node only, without edges.\<close>

definition topicArgs :: "unit Args" where
  "topicArgs = oceansArgs\<lparr>nodes := [entryNode, exitNode ''Topic: {{topic}}!''], edges := []\<rparr>"

text \<open>The entry node and an exit node whose placeholder is bound by an edge from the
  entry node; and the scenario without start inputs and without the edge into
  \<^verbatim>\<open>g1\<close>, in which \<^verbatim>\<open>g1\<close> never runs.\<close>

definition entryEdgeArgs :: "unit Args" where
  "entryEdgeArgs = oceansArgs\<lparr>nodes := [entryNode, exitNode ''Result: {{summary}}''],
     edges := [bind ''start'' ''end'' ''summary'']\<rparr>"

definition neverRanArgs :: "unit Args" where
  "neverRanArgs = oceansArgs\<lparr>edges := [bind ''g1'' ''end'' ''summary''], startInputs := []\<rparr>"

text \<open>The scenario with two model configurations, none of them the model \<^verbatim>\<open>gemini\<close>
  that the prompt version names, and a generation call that answers for the
  configuration \<^verbatim>\<open>flash\<close> only.\<close>

definition apiConfig :: "string \<Rightarrow> LLMConfig" where
  "apiConfig i = \<lparr>cfg_id = i, cfg_userId = ''system'', cfg_name = i, cfg_provider = Gemini,
     cfg_apiKey = None, cfg_baseUrl = None, cfg_modelId = i, cfg_isDefault = None\<rparr>"

definition apiArgs :: "unit Args" where
  "apiArgs = oceansArgs\<lparr>availableAPIs := [apiConfig ''flash'', apiConfig ''pro'']\<rparr>"

definition flashOnlyRuntime :: "unit Runtime" where
  "flashOnlyRuntime = oceansRuntime\<lparr>generateContent :=
     (\<lambda>k cfg prompt sys conf atts.
        if map_option cfg_id cfg = Some ''flash''
        then Inr (response ''Oceans cover 70% of Earth.'')
        else Inl (Value (Some ''unknown model'')))\<rparr>"

subsection \<open>When the function returns\<close>

text \<open>\<open>quietCallback a\<close>: there is no callback, or no call of it throws.
  \<open>neverThrowsNullish rt\<close>: no generation call throws \<^verbatim>\<open>null\<close> or \<^verbatim>\<open>undefined\<close>.\<close>

definition quietCallback :: "'g Args \<Rightarrow> bool" where
  "quietCallback a =
     (\<forall>calls nodeId status output. notify a calls nodeId status output = None)"

definition neverThrowsNullish :: "'g Runtime \<Rightarrow> bool" where
  "neverThrowsNullish rt =
     (\<forall>k cfg prompt sys conf atts. generateContent rt k cfg prompt sys conf atts \<noteq> Inl Nullish)"

subsection \<open>Comparing two runs\<close>

text \<open>A step without its latency; and two states that differ at most in what was
  read from the clock: the identifier and the time stamp of the log, the latencies
  of the steps and the number of readings.\<close>

definition stepCore :: "Step \<Rightarrow> string \<times> string \<times> Status \<times> string option" where
  "stepCore s = (step_nodeId s, step_nodeName s, step_status s, step_output s)"

text \<open>A log without what was read from the clock.\<close>

definition logCore :: "WorkflowRunLog
    \<Rightarrow> (string \<times> string \<times> Status \<times> string option) list \<times> Status \<times> (string \<rightharpoonup> string)" where
  "logCore log = (map stepCore (log_steps log), log_status log, log_outputs log)"

definition sameButTime :: "State \<Rightarrow> State \<Rightarrow> bool" where
  "sameButTime s t =
     (executionContext s = executionContext t \<and> processedNodes s = processedNodes t \<and>
      remainingNodes s = remainingNodes t \<and> genCalls s = genCalls t \<and>
      callbackCalls s = callbackCalls t \<and> raised s = raised t \<and>
      log_status (runLog s) = log_status (runLog t) \<and>
      log_inputs (runLog s) = log_inputs (runLog t) \<and>
      log_outputs (runLog s) = log_outputs (runLog t) \<and>
      map stepCore (log_steps (runLog s)) = map stepCore (log_steps (runLog t)))"

subsection \<open>The keys a node writes\<close>

text \<open>The keys of the execution context that a node assigns when it succeeds (lines
  155 to 158): the output variable, if the node declares one, and the raw output
  key of the node. \<open>distinctKeys\<close>: the names of the start inputs and the keys that
  the nodes write are pairwise distinct.\<close>

definition writtenKeys :: "WorkflowNode \<Rightarrow> string list" where
  "writtenKeys n =
     (case node_type n of
        Llm \<Rightarrow>
          (if truthy (outputVariableName (node_data n))
           then [orEmpty (outputVariableName (node_data n))] else [])
          @ [rawKey (node_id n)]
      | End \<Rightarrow> []
      | Start \<Rightarrow> [])"

definition distinctKeys :: "'g Args \<Rightarrow> bool" where
  "distinctKeys a = distinct (map fst (startInputs a) @ concat (map writtenKeys (nodes a)))"

text \<open>The scenario with a generation node that publishes its output under the name
  of the start input.\<close>

definition overwriteArgs :: "unit Args" where
  "overwriteArgs = oceansArgs\<lparr>nodes :=
     [entryNode,
      generateNode\<lparr>node_data := (node_data generateNode)\<lparr>outputVariableName := Some ''topic''\<rparr>\<rparr>],
     edges := []\<rparr>"

text \<open>The invariant of the loop under \<open>distinctKeys\<close>: the keys that the pending nodes
  write are pairwise distinct and not yet in the execution context.\<close>

definition keysFresh :: "State \<Rightarrow> bool" where
  "keysFresh st =
     (distinct (concat (map writtenKeys (remainingNodes st))) \<and>
      dom (executionContext st) \<inter> set (concat (map writtenKeys (remainingNodes st))) = {})"


subsection \<open>Readiness as the specification words it\<close>

text \<open>
  \<open>readyAsClaimed\<close> follows the words of the specification: every required variable
  is a key of the execution context or is the target handle of some edge into the
  node whose source is processed. \<open>readyByFirstEdge\<close> differs in two points: a
  variable is present in the context also when it is a name that the context
  inherits, and the edge is the first edge of the edge list into the node on that
  variable.
\<close>

definition binds :: "WorkflowEdge \<Rightarrow> WorkflowNode \<Rightarrow> string \<Rightarrow> bool" where
  "binds e node v = (edge_target e = node_id node \<and> edge_targetHandle e = v)"

definition readyAsClaimed :: "'g Args \<Rightarrow> State \<Rightarrow> WorkflowNode \<Rightarrow> bool" where
  "readyAsClaimed a st node =
     (\<forall>v\<in>set (requiredVars (versions a) node).
        executionContext st v \<noteq> None \<or>
        (\<exists>e\<in>set (edges a). binds e node v \<and> edge_source e \<in> processedNodes st))"

definition present :: "State \<Rightarrow> string \<Rightarrow> bool" where
  "present st v = (executionContext st v \<noteq> None \<or> v \<in> set objectPrototypeNames)"

definition readyByFirstEdge :: "'g Args \<Rightarrow> State \<Rightarrow> WorkflowNode \<Rightarrow> bool" where
  "readyByFirstEdge a st node =
     (\<forall>v\<in>set (requiredVars (versions a) node).
        present st v \<or>
        (\<exists>i<length (edges a).
           binds (edges a ! i) node v \<and> (\<forall>j<i. \<not> binds (edges a ! j) node v) \<and>
           edge_source (edges a ! i) \<in> processedNodes st))"

text \<open>Without start inputs \<^verbatim>\<open>g1\<close> is never ready. In \<open>twoEdgesArgs\<close> the placeholder
  of the exit node is bound first by an edge from \<^verbatim>\<open>g1\<close> and then by an edge from the
  entry node; in \<open>chainArgs\<close> a second generation node \<^verbatim>\<open>g2\<close> takes \<^verbatim>\<open>topic\<close> from
  \<^verbatim>\<open>g1\<close>.\<close>

definition twoEdgesArgs :: "unit Args" where
  "twoEdgesArgs = oceansArgs\<lparr>
     edges := [bind ''g1'' ''end'' ''summary'', bind ''start'' ''end'' ''summary''],
     startInputs := []\<rparr>"

definition secondNode :: WorkflowNode where
  "secondNode = generateNode\<lparr>node_id := ''g2'', node_name := ''Second'',
     node_data := (node_data generateNode)\<lparr>outputVariableName := Some ''detail''\<rparr>\<rparr>"

definition chainArgs :: "unit Args" where
  "chainArgs = oceansArgs\<lparr>nodes := [entryNode, generateNode, secondNode],
     edges := [bind ''g1'' ''g2'' ''topic''], startInputs := []\<rparr>"

text \<open>A graph of 101 exit nodes with the empty template, all of them ready at once;
  and the entry and exit node with the start inputs \<^verbatim>\<open>a = {{b}}\<close> and \<^verbatim>\<open>b = X\<close>.\<close>

definition manyExitsArgs :: "unit Args" where
  "manyExitsArgs = \<lparr>nodes = replicate 101 (exitNode []), edges = [], startInputs = [],
     attachments = [], versions = [], availableAPIs = [], onNodeStatusUpdate = None\<rparr>"

definition nestedValueArgs :: "unit Args" where
  "nestedValueArgs = oceansArgs\<lparr>nodes := [entryNode, exitNode ''{{a}} {{b}}''], edges := [],
     startInputs := [(''a'', ''{{b}}''), (''b'', ''X'')]\<rparr>"

section \<open>Properties\<close>

subsection \<open>The loop\<close>

lemma findIndex_Some:
  "findIndex P xs = Some i \<Longrightarrow> i < length xs \<and> P (xs ! i) \<and> (\<forall>j<i. \<not> P (xs ! j))"
proof (induction xs arbitrary: i)
  case Nil
  then show ?case by simp
next
  case (Cons x xs)
  show ?case
  proof (cases "P x")
    case True
    with Cons.prems show ?thesis by simp
  next
    case False
    with Cons.prems obtain i' where i': "findIndex P xs = Some i'" "i = Suc i'"
      by auto
    from Cons.IH [OF i'(1)] False i'(2) show ?thesis
      by (auto simp: less_Suc_eq_0_disj)
  qed
qed

lemma findIndex_None: "findIndex P xs = None \<longleftrightarrow> (\<forall>x\<in>set xs. \<not> P x)"
  by (induction xs) auto

lemma loop_Suc_pred:
  "0 < k \<Longrightarrow> loop rt a k st =
     (if remainingNodes st = [] then st
      else (case iteration rt a st of Break st' \<Rightarrow> st' | Continue st' \<Rightarrow> loop rt a (k - 1) st'))"
  by (cases k) (simp_all split: Flow.splits)

text \<open>The executor reads the execution context, the outputs of the log and the
  number of generation calls, and nothing else of the state.\<close>

lemma executeNode_state:
  "executionContext s = executionContext t \<Longrightarrow> genCalls s = genCalls t \<Longrightarrow>
   log_outputs (runLog s) = log_outputs (runLog t) \<Longrightarrow>
   executeNode rt a s n = executeNode rt a t n"
  by (cases "node_type n")
     (simp_all add: executeNode_def executeLlm_def executeEnd_def Let_def
        split: option.splits sum.splits)

lemma executeNode_update [simp]:
  "executeNode rt a (st\<lparr>remainingNodes := r\<rparr>) n = executeNode rt a st n"
  "executeNode rt a (st\<lparr>clockReads := c\<rparr>) n = executeNode rt a st n"
  "executeNode rt a (st\<lparr>callbackCalls := k\<rparr>) n = executeNode rt a st n"
  by (rule executeNode_state; simp)+


text \<open>What the \<^verbatim>\<open>catch\<close> block leaves as it is.\<close>

lemma catchBlock_fields [simp]:
  "executionContext (catchBlock rt a st n t e) = executionContext st"
  "processedNodes (catchBlock rt a st n t e) = processedNodes st"
  "remainingNodes (catchBlock rt a st n t e) = remainingNodes st"
  "genCalls (catchBlock rt a st n t e) = genCalls st"
  "log_outputs (runLog (catchBlock rt a st n t e)) = log_outputs (runLog st)"
  "log_inputs (runLog (catchBlock rt a st n t e)) = log_inputs (runLog st)"
  by (simp_all add: catchBlock_def pushStep_def split: option.splits Thrown.splits)

lemma catchBlock_Value:
  "notify a (callbackCalls st) (node_id n) (Finished Error) None = None \<Longrightarrow>
   catchBlock rt a st n t (Value m) =
     st\<lparr>runLog := pushStep (errorStep n m (dateNow rt (clockReads st) - t))
                    ((runLog st)\<lparr>log_status := Error\<rparr>),
        clockReads := Suc (clockReads st),
        callbackCalls := notified a (callbackCalls st)\<rparr>"
  by (simp add: catchBlock_def)

text \<open>The states in which a pass through the loop ends.\<close>

lemma iteration_Continue:
  assumes "iteration rt a st = Continue st'"
  obtains i ex where "readyNodeIndex a st = Some i"
    and "executeNode rt a st (remainingNodes st ! i) = Inr ex"
    and "executionContext st' = ex_context ex"
    and "processedNodes st' = insert (node_id (remainingNodes st ! i)) (processedNodes st)"
    and "remainingNodes st' = splice1 i (remainingNodes st)"
    and "runLog st' = pushStep (successStep (remainingNodes st ! i) (ex_output ex)
            (dateNow rt (Suc (clockReads st)) - dateNow rt (clockReads st)))
            ((runLog st)\<lparr>log_outputs := ex_outputs ex\<rparr>)"
    and "clockReads st' = clockReads st + 2"
    and "genCalls st' = ex_genCalls ex"
    and "callbackCalls st' = notified a (notified a (callbackCalls st))"
    and "raised st' = raised st"
  using assms
  by (auto simp: iteration_def Let_def split: option.splits sum.splits)

lemma iteration_Break:
  assumes "iteration rt a st = Break st'"
  obtains "readyNodeIndex a st = None" and "st' = st"
  | i thrown where "readyNodeIndex a st = Some i"
    and "notify a (callbackCalls st) (node_id (remainingNodes st ! i)) Running None =
           Some thrown"
    and "st' = st\<lparr>remainingNodes := splice1 i (remainingNodes st),
                   callbackCalls := notified a (callbackCalls st),
                   raised := Some (FromCallback thrown)\<rparr>"
  | i err where "readyNodeIndex a st = Some i"
    and "executeNode rt a st (remainingNodes st ! i) = Inl err"
    and "st' = catchBlock rt a
           (st\<lparr>remainingNodes := splice1 i (remainingNodes st),
               clockReads := Suc (clockReads st),
               callbackCalls := notified a (callbackCalls st)\<rparr>)
           (remainingNodes st ! i) (dateNow rt (clockReads st)) err"
  | i ex err where "readyNodeIndex a st = Some i"
    and "executeNode rt a st (remainingNodes st ! i) = Inr ex"
    and "notify a (notified a (callbackCalls st)) (node_id (remainingNodes st ! i))
           (Finished Success) (Some (ex_output ex)) = Some err"
    and "st' = catchBlock rt a
           (st\<lparr>remainingNodes := splice1 i (remainingNodes st),
               clockReads := Suc (clockReads st),
               executionContext := ex_context ex,
               runLog := (runLog st)\<lparr>log_outputs := ex_outputs ex\<rparr>,
               genCalls := ex_genCalls ex,
               callbackCalls := notified a (notified a (callbackCalls st))\<rparr>)
           (remainingNodes st ! i) (dateNow rt (clockReads st)) err"
proof (cases "readyNodeIndex a st")
  case None
  with assms have "st' = st" by (simp add: iteration_def)
  with None show thesis by (rule that(1))
next
  case (Some i)
  show thesis
  proof (cases "notify a (callbackCalls st) (node_id (remainingNodes st ! i)) Running None")
    case t: (Some thrown)
    with assms Some have "st' = st\<lparr>remainingNodes := splice1 i (remainingNodes st),
                   callbackCalls := notified a (callbackCalls st),
                   raised := Some (FromCallback thrown)\<rparr>"
      by (simp add: iteration_def Let_def)
    with Some t show thesis by (rule that(2))
  next
    case n: None
    show thesis
    proof (cases "executeNode rt a st (remainingNodes st ! i)")
      case (Inl err)
      with assms Some n have "st' = catchBlock rt a
           (st\<lparr>remainingNodes := splice1 i (remainingNodes st),
               clockReads := Suc (clockReads st),
               callbackCalls := notified a (callbackCalls st)\<rparr>)
           (remainingNodes st ! i) (dateNow rt (clockReads st)) err"
        by (simp add: iteration_def Let_def)
      with Some Inl show thesis by (rule that(3))
    next
      case (Inr ex)
      with assms Some n obtain err where
        "notify a (notified a (callbackCalls st)) (node_id (remainingNodes st ! i))
           (Finished Success) (Some (ex_output ex)) = Some err"
        "st' = catchBlock rt a
           (st\<lparr>remainingNodes := splice1 i (remainingNodes st),
               clockReads := Suc (clockReads st),
               executionContext := ex_context ex,
               runLog := (runLog st)\<lparr>log_outputs := ex_outputs ex\<rparr>,
               genCalls := ex_genCalls ex,
               callbackCalls := notified a (notified a (callbackCalls st))\<rparr>)
           (remainingNodes st ! i) (dateNow rt (clockReads st)) err"
        by (auto simp: iteration_def Let_def split: option.splits)
      with Some Inr show thesis by (rule that(4))
    qed
  qed
qed

lemma length_splice1: "i < length xs \<Longrightarrow> Suc (length (splice1 i xs)) = length xs"
  by (simp add: splice1_def)

lemma runState_invariant:
  "runState rt a j = Some st \<Longrightarrow>
     log_status (runLog st) = Success \<and>
     (\<forall>s\<in>set (log_steps (runLog st)). step_status s = Success) \<and>
     length (log_steps (runLog st)) = length (log_steps (runLog (initialState rt a))) + j \<and>
     length (remainingNodes st) + j = length (remainingNodes (initialState rt a)) \<and> j \<le> 100 \<and>
     raised st = None"
proof (induction j arbitrary: st)
  case 0
  then have "st = initialState rt a" "raised (initialState rt a) = None"
    by (auto split: if_splits)
  then show ?case
    by (auto simp: initialState_def Let_def pushStep_def successStep_def split: option.splits)
next
  case (Suc j)
  from Suc.prems obtain st0 where st0: "runState rt a j = Some st0" "j < 100"
      "remainingNodes st0 \<noteq> []" "iteration rt a st0 = Continue st"
    by (auto split: option.splits if_splits Flow.splits)
  note ih = Suc.IH [OF st0(1)]
  from st0(4) show ?case
  proof (rule iteration_Continue)
    fix i ex
    assume i: "readyNodeIndex a st0 = Some i"
      and r: "remainingNodes st = splice1 i (remainingNodes st0)"
      and l: "runLog st = pushStep (successStep (remainingNodes st0 ! i) (ex_output ex)
            (dateNow rt (Suc (clockReads st0)) - dateNow rt (clockReads st0)))
            ((runLog st0)\<lparr>log_outputs := ex_outputs ex\<rparr>)"
      and e: "raised st = raised st0"
    from i have "i < length (remainingNodes st0)"
      by (auto simp: readyNodeIndex_def dest: findIndex_Some)
    then have "Suc (length (remainingNodes st)) = length (remainingNodes st0)"
      by (simp add: r length_splice1)
    with ih l e st0(2) show ?thesis
      by (auto simp: pushStep_def successStep_def)
  qed
qed

lemma final_runState:
  "runState rt a j = Some st \<Longrightarrow> finalState rt a = loop rt a (100 - j) st"
proof (induction j arbitrary: st)
  case 0
  then show ?case by (simp add: finalState_def split: if_splits)
next
  case (Suc j)
  from Suc.prems obtain st0 where st0: "runState rt a j = Some st0" "j < 100"
      "remainingNodes st0 \<noteq> []" "iteration rt a st0 = Continue st"
    by (auto split: option.splits if_splits Flow.splits)
  have "finalState rt a = loop rt a (100 - j) st0"
    by (rule Suc.IH [OF st0(1)])
  also have "\<dots> = loop rt a (100 - Suc j) st"
    using st0 by (simp add: loop_Suc_pred)
  finally show ?case .
qed

lemmas scenario_defs = oceansArgs_def oceansRuntime_def failingRuntime_def entryNode_def
  generateNode_def exitNode_def noData_def summarizeVersion_def bind_def response_def
  replaceBy_def

lemmas readiness_defs = readyNodeIndex_def isReady_def requiredVars_def versionVariables_def
  findVersion_def getVariables_def matchAt_def varAvailable_def findEdge_def truthy_def
  orEmpty_def contextGet_def objectPrototypeNames_def


subsection \<open>Stop on error\<close>


text \<open>The scenario of the specification in which the generation call throws
  \<^verbatim>\<open>rate limited\<close>, with a callback that always returns: two steps, the second the
  error step of \<^verbatim>\<open>g1\<close>.\<close>

lemma failing_ready:
  "readyNodeIndex watchedArgs (initialState failingRuntime watchedArgs) = Some 0"
  by (simp add: initialState_def watchedArgs_def notify_def readiness_defs scenario_defs)

lemma failing_raises:
  "executeNode failingRuntime watchedArgs (initialState failingRuntime watchedArgs)
     (remainingNodes (initialState failingRuntime watchedArgs) ! 0) =
   Inl (Value (Some ''rate limited''))"
  by (simp add: initialState_def executeNode_def executeLlm_def nodeInputs_def llmInput_def
        objectEntries_def arrayIndex_def isDigit_def placeholder_def modelConfig_def Let_def
        watchedArgs_def notify_def readiness_defs scenario_defs)



subsection \<open>The status of the log\<close>

lemma catchBlock_status:
  assumes "raised st = None" and "raised (catchBlock rt a st n t err) = None"
  shows "log_status (runLog (catchBlock rt a st n t err)) = Error"
    and "\<exists>s\<in>set (log_steps (runLog (catchBlock rt a st n t err))). step_status s = Error"
  using assms
  by (cases err; auto simp: catchBlock_def pushStep_def errorStep_def split: option.splits)+

lemma loop_status:
  assumes "log_status (runLog st) = Success"
    and "\<forall>s\<in>set (log_steps (runLog st)). step_status s = Success"
    and "raised st = None"
    and "raised (loop rt a k st) = None"
  shows "(log_status (runLog (loop rt a k st)) = Error) =
         (\<exists>s\<in>set (log_steps (runLog (loop rt a k st))). step_status s = Error)"
  using assms
proof (induction k arbitrary: st)
  case 0
  then show ?case by auto
next
  case (Suc k)
  show ?case
  proof (cases "remainingNodes st = []")
    case True
    with Suc.prems show ?thesis by auto
  next
    case False
    show ?thesis
    proof (cases "iteration rt a st")
      case (Break st')
      with False have l: "loop rt a (Suc k) st = st'"
        by simp
      from Break show ?thesis
      proof (rule iteration_Break)
        assume "st' = st"
        with Break False Suc.prems show ?thesis by auto
      next
        fix i thrown
        assume "st' = st\<lparr>remainingNodes := splice1 i (remainingNodes st),
                   callbackCalls := notified a (callbackCalls st),
                   raised := Some (FromCallback thrown)\<rparr>"
        with l Suc.prems(4) show ?thesis by simp
      next
        fix i err
        assume s: "st' = catchBlock rt a
           (st\<lparr>remainingNodes := splice1 i (remainingNodes st),
               clockReads := Suc (clockReads st),
               callbackCalls := notified a (callbackCalls st)\<rparr>)
           (remainingNodes st ! i) (dateNow rt (clockReads st)) err"
        from Suc.prems(3,4) show ?thesis
          unfolding l s by (simp add: catchBlock_status)
      next
        fix i ex err
        assume s: "st' = catchBlock rt a
           (st\<lparr>remainingNodes := splice1 i (remainingNodes st),
               clockReads := Suc (clockReads st),
               executionContext := ex_context ex,
               runLog := (runLog st)\<lparr>log_outputs := ex_outputs ex\<rparr>,
               genCalls := ex_genCalls ex,
               callbackCalls := notified a (notified a (callbackCalls st))\<rparr>)
           (remainingNodes st ! i) (dateNow rt (clockReads st)) err"
        from Suc.prems(3,4) show ?thesis
          unfolding l s by (simp add: catchBlock_status)
      qed
    next
      case (Continue st')
      then have "log_status (runLog st') = Success \<and>
          (\<forall>s\<in>set (log_steps (runLog st')). step_status s = Success) \<and> raised st' = None"
        using Suc.prems by (auto elim!: iteration_Continue simp: pushStep_def successStep_def)
      moreover from Continue False Suc.prems(4) have "raised (loop rt a k st') = None"
        by simp
      ultimately have "(log_status (runLog (loop rt a k st')) = Error) =
         (\<exists>s\<in>set (log_steps (runLog (loop rt a k st'))). step_status s = Error)"
        using Suc.IH by blast
      with Continue False show ?thesis by simp
    qed
  qed
qed

subsection \<open>Stopping without a ready node\<close>

text \<open>
  Claim C5. Let the run have made \<open>j\<close> passes through the loop without leaving it and
  be in the state \<open>st\<close>. If nodes are pending and the scan finds none of them ready,
  or if the iteration limit is used up (\<open>j = 100\<close>), the loop ends in this very
  state: no further node is executed and the function returns the log of \<open>st\<close>.
  Its status is \<^verbatim>\<open>success\<close> and all its steps are successful, since a node that
  throws an error ends the loop at once. The number of passes is at most 100 and
  at most the number of nodes other than entry nodes.
\<close>

theorem no_ready_node_stops_silently:
  assumes "runState rt a j = Some st"
    and "(remainingNodes st \<noteq> [] \<and> readyNodeIndex a st = None) \<or> j = 100"
  shows "finalState rt a = st \<and>
         executeWorkflowEngine rt a = Inr (runLog st) \<and>
         log_status (runLog st) = Success \<and>
         (\<forall>s\<in>set (log_steps (runLog st)). step_status s = Success) \<and>
         j \<le> 100 \<and> j \<le> length (filter (\<lambda>n. node_type n \<noteq> Start) (nodes a))"
proof -
  have "loop rt a (100 - j) st = st"
  proof (cases "j = 100")
    case True
    then show ?thesis by simp
  next
    case False
    with assms(2) have "remainingNodes st \<noteq> []" "readyNodeIndex a st = None"
      by auto
    then have "iteration rt a st = Break st"
      by (simp add: iteration_def)
    then show ?thesis
      by (cases "100 - j") simp_all
  qed
  then have fin: "finalState rt a = st"
    using final_runState [OF assms(1)] by simp
  have "length (remainingNodes (initialState rt a)) \<le>
      length (filter (\<lambda>n. node_type n \<noteq> Start) (nodes a))"
    by (simp add: initialState_def Let_def split: option.splits)
  with runState_invariant [OF assms(1)] show ?thesis
    by (simp add: executeWorkflowEngine_def fin)
qed

text \<open>Without the generation node the exit node waits for \<^verbatim>\<open>summary\<close> for ever: the
  log has the step of the entry node only, the status \<^verbatim>\<open>success\<close> and no final output.
  Of 101 exit nodes that are all ready, 100 are executed: the last one stays
  pending, and the status is \<^verbatim>\<open>success\<close>.\<close>

lemma many_exits_initial:
  "raised (initialState rt manyExitsArgs) = None"
  "remainingNodes (initialState rt manyExitsArgs) = replicate 101 (exitNode [])"
  "log_steps (runLog (initialState rt manyExitsArgs)) = []"
proof -
  have "find (\<lambda>n. node_type n = Start) (nodes manyExitsArgs) = None"
    by (simp add: find_None_iff manyExitsArgs_def exitNode_def)
  then show "raised (initialState rt manyExitsArgs) = None"
    "remainingNodes (initialState rt manyExitsArgs) = replicate 101 (exitNode [])"
    "log_steps (runLog (initialState rt manyExitsArgs)) = []"
    by (simp_all add: initialState_def Let_def) (simp add: manyExitsArgs_def exitNode_def)
qed

lemma many_exits_pass:
  "j \<le> 100 \<Longrightarrow> \<exists>st. runState rt manyExitsArgs j = Some st \<and>
     remainingNodes st = replicate (101 - j) (exitNode [])"
proof (induction j)
  case 0
  show ?case
    by (simp add: many_exits_initial)
next
  case (Suc j)
  then obtain st where st: "runState rt manyExitsArgs j = Some st"
    and r: "remainingNodes st = replicate (101 - j) (exitNode [])"
    by auto
  from Suc.prems have "101 - j = Suc (101 - Suc j)"
    by simp
  with r have r': "remainingNodes st = exitNode [] # replicate (101 - Suc j) (exitNode [])"
    by simp
  have "requiredVars (versions manyExitsArgs) (exitNode []) = []"
    by (simp add: requiredVars_def exitNode_def noData_def orEmpty_def getVariables_def)
  then have "isReady manyExitsArgs st (exitNode [])"
    by (simp add: isReady_def)
  with r' have i: "readyNodeIndex manyExitsArgs st = Some 0"
    by (simp add: readyNodeIndex_def)
  have "executeNode rt manyExitsArgs st (exitNode []) =
      Inr \<lparr>ex_output = [], ex_context = executionContext st,
           ex_outputs = (log_outputs (runLog st))(''final'' \<mapsto> []), ex_genCalls = genCalls st\<rparr>"
    by (simp add: executeNode_def executeEnd_def exitNode_def noData_def orEmpty_def
          getVariables_def)
  moreover have "notify manyExitsArgs c n u out = None" for c n u out
    by (simp add: notify_def manyExitsArgs_def)
  ultimately obtain st' where "iteration rt manyExitsArgs st = Continue st'"
    and "remainingNodes st' = replicate (101 - Suc j) (exitNode [])"
    using i r' by (simp add: iteration_def Let_def splice1_def)
  with st r' Suc.prems show ?case
    by simp
qed

theorem no_ready_node_stops_silently_witness:
  "runState oceansRuntime stuckArgs 0 = Some (initialState oceansRuntime stuckArgs) \<and>
   remainingNodes (initialState oceansRuntime stuckArgs) = [exitNode ''Result: {{summary}}''] \<and>
   readyNodeIndex stuckArgs (initialState oceansRuntime stuckArgs) = None \<and>
   executeWorkflowEngine oceansRuntime stuckArgs =
     Inr \<lparr>log_id = 0, log_timestamp = 1, log_status = Success,
          log_inputs = [(''topic'', ''oceans'')], log_outputs = Map.empty,
          log_steps = [\<lparr>step_nodeId = ''start'', step_nodeName = ''Entry'',
            step_status = Success, step_output = Some (plainJson [(''topic'', ''oceans'')]),
            step_latency = 0\<rparr>]\<rparr> \<and>
   remainingNodes (finalState oceansRuntime manyExitsArgs) = [exitNode []] \<and>
   executeWorkflowEngine oceansRuntime manyExitsArgs =
     Inr (runLog (finalState oceansRuntime manyExitsArgs)) \<and>
   length (log_steps (runLog (finalState oceansRuntime manyExitsArgs))) = 100 \<and>
   log_status (runLog (finalState oceansRuntime manyExitsArgs)) = Success"
proof -
  obtain st where st: "runState oceansRuntime manyExitsArgs 100 = Some st"
    and r100: "remainingNodes st = [exitNode []]"
    using many_exits_pass [of 100 oceansRuntime] by auto
  have "(remainingNodes st \<noteq> [] \<and> readyNodeIndex manyExitsArgs st = None) \<or> (100::nat) = 100"
    by simp
  note t = no_ready_node_stops_silently [OF st this]
  from runState_invariant [OF st] have "length (log_steps (runLog st)) = 100"
    by (simp add: many_exits_initial)
  with t r100 have ceiling:
    "remainingNodes (finalState oceansRuntime manyExitsArgs) = [exitNode []] \<and>
     executeWorkflowEngine oceansRuntime manyExitsArgs =
       Inr (runLog (finalState oceansRuntime manyExitsArgs)) \<and>
     length (log_steps (runLog (finalState oceansRuntime manyExitsArgs))) = 100 \<and>
     log_status (runLog (finalState oceansRuntime manyExitsArgs)) = Success"
    by (elim conjE) simp
  have "raised (initialState oceansRuntime stuckArgs) = None"
    by (simp add: initialState_def stuckArgs_def notify_def scenario_defs)
  then have s: "runState oceansRuntime stuckArgs 0 = Some (initialState oceansRuntime stuckArgs)"
    by simp
  have p: "remainingNodes (initialState oceansRuntime stuckArgs) =
      [exitNode ''Result: {{summary}}'']"
    by (simp add: initialState_def stuckArgs_def notify_def scenario_defs)
  have r: "readyNodeIndex stuckArgs (initialState oceansRuntime stuckArgs) = None"
    by (simp add: initialState_def stuckArgs_def notify_def readiness_defs scenario_defs)
  have l: "runLog (initialState oceansRuntime stuckArgs) =
      \<lparr>log_id = 0, log_timestamp = 1, log_status = Success,
       log_inputs = [(''topic'', ''oceans'')], log_outputs = Map.empty,
       log_steps = [\<lparr>step_nodeId = ''start'', step_nodeName = ''Entry'',
            step_status = Success, step_output = Some (plainJson [(''topic'', ''oceans'')]),
            step_latency = 0\<rparr>]\<rparr>"
    by (simp add: initialState_def stuckArgs_def pushStep_def successStep_def notify_def
          scenario_defs)
  from p r have "(remainingNodes (initialState oceansRuntime stuckArgs) \<noteq> [] \<and>
      readyNodeIndex stuckArgs (initialState oceansRuntime stuckArgs) = None) \<or> (0::nat) = 100"
    by simp
  from no_ready_node_stops_silently [OF s this] s p r l ceiling show ?thesis
    by simp
qed

subsection \<open>Failures are reported in the log\<close>

lemma executeNode_not_Nullish:
  "neverThrowsNullish rt \<Longrightarrow> executeNode rt a st n \<noteq> Inl Nullish"
  by (cases "node_type n")
     (auto simp: neverThrowsNullish_def executeNode_def executeLlm_def executeEnd_def Let_def
        split: option.splits sum.splits)

lemma catchBlock_returns:
  "quietCallback a \<Longrightarrow> err \<noteq> Nullish \<Longrightarrow> raised (catchBlock rt a st n t err) = raised st"
  by (cases err) (simp_all add: catchBlock_def quietCallback_def)

lemma loop_returns:
  assumes "quietCallback a" and "neverThrowsNullish rt"
  shows "raised st = None \<Longrightarrow> raised (loop rt a k st) = None"
proof (induction k arbitrary: st)
  case 0
  then show ?case by simp
next
  case (Suc k)
  show ?case
  proof (cases "remainingNodes st = []")
    case True
    with Suc.prems show ?thesis by simp
  next
    case False
    show ?thesis
    proof (cases "iteration rt a st")
      case (Break st')
      with False have l: "loop rt a (Suc k) st = st'"
        by simp
      from Break show ?thesis
      proof (rule iteration_Break)
        assume "st' = st"
        with l Suc.prems show ?thesis by simp
      next
        fix i thrown
        assume "notify a (callbackCalls st) (node_id (remainingNodes st ! i)) Running None =
           Some thrown"
        with assms(1) show ?thesis
          by (simp add: quietCallback_def)
      next
        fix i err
        assume e: "executeNode rt a st (remainingNodes st ! i) = Inl err"
          and s: "st' = catchBlock rt a
           (st\<lparr>remainingNodes := splice1 i (remainingNodes st),
               clockReads := Suc (clockReads st),
               callbackCalls := notified a (callbackCalls st)\<rparr>)
           (remainingNodes st ! i) (dateNow rt (clockReads st)) err"
        from e executeNode_not_Nullish [OF assms(2)] have "err \<noteq> Nullish"
          by metis
        with assms(1) Suc.prems show ?thesis
          unfolding l s by (simp add: catchBlock_returns)
      next
        fix i ex err
        assume "notify a (notified a (callbackCalls st)) (node_id (remainingNodes st ! i))
           (Finished Success) (Some (ex_output ex)) = Some err"
        with assms(1) show ?thesis
          by (simp add: quietCallback_def)
      qed
    next
      case (Continue st')
      then have "raised st' = None"
        using Suc.prems by (auto elim!: iteration_Continue)
      with Continue False Suc.IH show ?thesis by simp
    qed
  qed
qed

lemma initialState_returns: "quietCallback a \<Longrightarrow> raised (initialState rt a) = None"
  by (simp add: initialState_def quietCallback_def Let_def split: option.splits)

text \<open>
  Claim C9, amended. Let no call of the callback throw, and let no generation call
  throw \<^verbatim>\<open>null\<close> or \<^verbatim>\<open>undefined\<close>. Then, whatever else the generation call and the
  replacement do, throwing included, the function returns a log. Every error
  thrown while a node executes becomes the last step of the log, with the status
  \<^verbatim>\<open>error\<close> and the message of the error as output, and the status of the log tells
  whether this happened: it is \<^verbatim>\<open>error\<close> exactly when some step has the status
  \<^verbatim>\<open>error\<close>, and \<^verbatim>\<open>success\<close> exactly when all steps are successful.
\<close>

theorem run_reports_failure_in_status:
  assumes "quietCallback a" and "neverThrowsNullish rt"
  shows "executeWorkflowEngine rt a = Inr (runLog (finalState rt a)) \<and>
   (log_status (runLog (finalState rt a)) = Error \<longleftrightarrow>
      (\<exists>s\<in>set (log_steps (runLog (finalState rt a))). step_status s = Error)) \<and>
   (log_status (runLog (finalState rt a)) = Success \<longleftrightarrow>
      (\<forall>s\<in>set (log_steps (runLog (finalState rt a))). step_status s = Success)) \<and>
   (\<forall>j st i err.
      runState rt a j = Some st \<and> j < 100 \<and> readyNodeIndex a st = Some i \<and>
      executeNode rt a st (remainingNodes st ! i) = Inl err \<longrightarrow>
      log_steps (runLog (finalState rt a)) \<noteq> [] \<and>
      step_nodeId (last (log_steps (runLog (finalState rt a)))) = node_id (remainingNodes st ! i) \<and>
      step_nodeName (last (log_steps (runLog (finalState rt a)))) =
        node_name (remainingNodes st ! i) \<and>
      step_status (last (log_steps (runLog (finalState rt a)))) = Error \<and>
      Value (step_output (last (log_steps (runLog (finalState rt a))))) = err)"
proof -
  have r0: "raised (initialState rt a) = None"
    by (rule initialState_returns [OF assms(1)])
  then have fin: "finalState rt a = loop rt a 100 (initialState rt a)"
    by (simp add: finalState_def)
  have r: "raised (finalState rt a) = None"
    unfolding fin by (rule loop_returns [OF assms r0])
  then have ret: "executeWorkflowEngine rt a = Inr (runLog (finalState rt a))"
    by (simp add: executeWorkflowEngine_def)
  from r0 have "runState rt a 0 = Some (initialState rt a)"
    by simp
  from runState_invariant [OF this]
  have init: "log_status (runLog (initialState rt a)) = Success"
      "\<forall>s\<in>set (log_steps (runLog (initialState rt a))). step_status s = Success"
    by simp_all
  have e: "(log_status (runLog (finalState rt a)) = Error) =
      (\<exists>s\<in>set (log_steps (runLog (finalState rt a))). step_status s = Error)"
    using r unfolding fin by (intro loop_status init r0)
  have ne: "x \<noteq> Error \<longleftrightarrow> x = Success" for x
    by (cases x) auto
  have s: "(log_status (runLog (finalState rt a)) = Success) =
      (\<forall>s\<in>set (log_steps (runLog (finalState rt a))). step_status s = Success)"
    using e ne by metis
  have "log_steps (runLog (finalState rt a)) \<noteq> [] \<and>
      step_nodeId (last (log_steps (runLog (finalState rt a)))) = node_id (remainingNodes st ! i) \<and>
      step_nodeName (last (log_steps (runLog (finalState rt a)))) =
        node_name (remainingNodes st ! i) \<and>
      step_status (last (log_steps (runLog (finalState rt a)))) = Error \<and>
      Value (step_output (last (log_steps (runLog (finalState rt a))))) = err"
    if "runState rt a j = Some st" "j < 100" "readyNodeIndex a st = Some i"
      "executeNode rt a st (remainingNodes st ! i) = Inl err" for j st i err
  proof -
    have "finalState rt a = loop rt a (100 - j) st"
      by (rule final_runState [OF that(1)])
    moreover from that(3) have "remainingNodes st \<noteq> []"
      by (auto simp: readyNodeIndex_def)
    ultimately have f: "finalState rt a = (case iteration rt a st of Break st' \<Rightarrow> st'
      | Continue st' \<Rightarrow> loop rt a (100 - j - 1) st')"
      using that(2) by (simp add: loop_Suc_pred)
    from that(4) executeNode_not_Nullish [OF assms(2)] obtain message where
      m: "err = Value message"
      by (cases err) auto
    from assms(1) have q: "notify a c n u out = None" for c n u out
      by (simp add: quietCallback_def)
    from that(3,4) show ?thesis
      unfolding f m
      by (simp add: iteration_def Let_def catchBlock_def q pushStep_def errorStep_def)
  qed
  with ret e s show ?thesis by blast
qed

theorem run_reports_failure_in_status_witness:
  "quietCallback watchedArgs \<and> neverThrowsNullish failingRuntime \<and>
   executeWorkflowEngine failingRuntime watchedArgs =
     Inr (runLog (finalState failingRuntime watchedArgs)) \<and>
   Error \<in> set (map step_status (log_steps (runLog (finalState failingRuntime watchedArgs)))) \<and>
   log_status (runLog (finalState failingRuntime watchedArgs)) = Error \<and>
   step_nodeId (last (log_steps (runLog (finalState failingRuntime watchedArgs)))) = ''g1'' \<and>
   step_output (last (log_steps (runLog (finalState failingRuntime watchedArgs)))) =
     Some ''rate limited''"
proof -
  let ?log = "runLog (finalState failingRuntime watchedArgs)"
  have q: "quietCallback watchedArgs"
    by (simp add: quietCallback_def notify_def watchedArgs_def)
  have g: "neverThrowsNullish failingRuntime"
    by (simp add: neverThrowsNullish_def failingRuntime_def)
  have "raised (initialState failingRuntime watchedArgs) = None"
    by (rule initialState_returns [OF q])
  then have s: "runState failingRuntime watchedArgs 0 =
      Some (initialState failingRuntime watchedArgs)"
    by simp
  have n: "node_id (remainingNodes (initialState failingRuntime watchedArgs) ! 0) = ''g1''"
    by (simp add: initialState_def watchedArgs_def notify_def scenario_defs)
  note t = run_reports_failure_in_status [OF q g]
  from t s failing_ready failing_raises
  have l: "log_steps ?log \<noteq> [] \<and>
      step_nodeId (last (log_steps ?log)) =
        node_id (remainingNodes (initialState failingRuntime watchedArgs) ! 0) \<and>
      step_status (last (log_steps ?log)) = Error \<and>
      Value (step_output (last (log_steps ?log))) = Value (Some ''rate limited'')"
    by (metis zero_less_numeral)
  then have "\<exists>s\<in>set (log_steps ?log). step_status s = Error"
    using last_in_set by blast
  moreover from this have "Error \<in> set (map step_status (log_steps ?log))"
    by force
  ultimately show ?thesis
    using t l n q g by simp
qed

text \<open>The claim as stated fails: when the generation call throws \<^verbatim>\<open>null\<close>, the \<^verbatim>\<open>catch\<close>
  block fails on \<^verbatim>\<open>err.message\<close> and the function throws.\<close>

theorem run_throws_counterexample:
  "executeWorkflowEngine nullRuntime oceansArgs = Inl TypeErrorOnMessage"
  by (simp add: executeWorkflowEngine_def finalState_def loop_Suc_pred iteration_def
        catchBlock_def initialState_def notify_def notified_def nullRuntime_def
        executeNode_def executeLlm_def nodeInputs_def llmInput_def
        objectEntries_def arrayIndex_def isDigit_def placeholder_def modelConfig_def Let_def
        readiness_defs scenario_defs)

text \<open>So does it when the callback throws outside the \<^verbatim>\<open>try\<close> block.\<close>

lemma callback_that_throws_ends_run:
  "executeWorkflowEngine oceansRuntime interruptedArgs =
     Inl (FromCallback (Value (Some ''no view'')))"
  by (simp add: executeWorkflowEngine_def finalState_def loop_Suc_pred iteration_def
        initialState_def notify_def notified_def interruptedArgs_def Let_def
        readiness_defs scenario_defs)


subsection \<open>The variables of a template\<close>

lemma stripBraces_name:
  "noOpening n \<Longrightarrow> CHR ''}'' \<notin> set n \<Longrightarrow> stripBraces (n @ ''}}'') = n"
  by (induction n rule: noOpening.induct) auto

lemma stripBraces_placeholder: "isName n \<Longrightarrow> stripBraces (placeholder n) = n"
  using stripBraces_name [of n] by (simp add: placeholder_def isName_def)

lemma run_until_brace:
  "CHR ''}'' \<notin> set n \<Longrightarrow>
     takeWhile (\<lambda>c. c \<noteq> CHR ''}'') (n @ CHR ''}'' # r) = n \<and>
     dropWhile (\<lambda>c. c \<noteq> CHR ''}'') (n @ CHR ''}'' # r) = CHR ''}'' # r"
  by (induction n) auto

lemma matchAt_placeholder:
  "isName n \<Longrightarrow> matchAt (placeholder n @ rest) = Some (placeholder n, rest)"
  using run_until_brace [of n "CHR ''}'' # rest"]
  by (simp add: matchAt_def placeholder_def isName_def)

lemma matchAt_no_brace: "c \<noteq> CHR ''{'' \<Longrightarrow> matchAt (c # cs) = None"
  by (simp add: matchAt_def split: list.splits)

lemma matchAt_one_brace: "d \<noteq> CHR ''{'' \<Longrightarrow> matchAt (c # d # cs) = None"
  by (simp add: matchAt_def)

lemma matchAll_text: "plainText s \<Longrightarrow> matchAll (s @ rest) = matchAll rest"
proof (induction s rule: plainText.induct)
  case 1
  then show ?case by simp
next
  case (2 c)
  then show ?case by (simp add: matchAt_no_brace)
next
  case (3 c d s)
  then have "matchAt (c # d # s @ rest) = None"
    by (cases "c = CHR ''{''") (simp_all add: matchAt_no_brace matchAt_one_brace)
  with 3 show ?case by simp
qed

lemma matchAll_placeholder:
  "isName n \<Longrightarrow> matchAll (placeholder n @ rest) = placeholder n # matchAll rest"
proof -
  assume n: "isName n"
  have "placeholder n @ rest = CHR ''{'' # (CHR ''{'' # n @ ''}}'' @ rest)"
    by (simp add: placeholder_def)
  then have "matchAll (placeholder n @ rest) =
      (case matchAt (placeholder n @ rest) of Some (m, r) \<Rightarrow> m # matchAll r
       | None \<Rightarrow> matchAll (CHR ''{'' # n @ ''}}'' @ rest))"
    by (metis matchAll.simps(2))
  with n show ?thesis by (simp add: matchAt_placeholder)
qed

lemma getVariables_render: "wellFormed ps \<Longrightarrow> getVariables (render ps) = varNames ps"
proof (induction ps)
  case Nil
  then show ?case by (simp add: getVariables_def render_def)
next
  case (Cons p ps)
  then have ih: "map stripBraces (matchAll (render ps)) = varNames ps"
    by (simp add: wellFormed_def getVariables_def)
  show ?case
  proof (cases p)
    case (Text s)
    with Cons.prems have "matchAll (render (p # ps)) = matchAll (render ps)"
      by (simp add: render_def wellFormed_def matchAll_text)
    with ih Text show ?thesis by (simp add: getVariables_def)
  next
    case (Var n)
    with Cons.prems have n: "isName n" by (simp add: wellFormed_def)
    then have "matchAll (render (p # ps)) = placeholder n # matchAll (render ps)"
      using Var by (simp add: render_def matchAll_placeholder)
    with ih Var n show ?thesis by (simp add: getVariables_def stripBraces_placeholder)
  qed
qed

lemma getVariables_messages:
  "list_all wellFormed pss \<Longrightarrow> map msg_content ms = map render pss \<Longrightarrow>
   concat (map (\<lambda>m. getVariables (msg_content m)) ms) = concat (map varNames pss)"
proof (induction pss arbitrary: ms)
  case Nil
  then show ?case by simp
next
  case (Cons ps pss)
  from Cons.prems(2) obtain m ms' where ms: "ms = m # ms'" "msg_content m = render ps"
      "map msg_content ms' = map render pss"
    by (cases ms) auto
  with Cons.prems(1) Cons.IH [of ms'] show ?case
    by (simp add: getVariables_render)
qed

text \<open>
  Claim C7, amended. \<^verbatim>\<open>getVariables\<close> returns a list, not a set: for a well-formed
  template it has one entry for each placeholder of the template, in the order of
  the text, so that a name occurring several times appears as many times. The
  variables of a prompt version are the list of its content followed by the lists
  of its messages, in order, and nothing is removed from them either.
\<close>

theorem getVariables_lists_every_occurrence:
  "(wellFormed ps \<longrightarrow> getVariables (render ps) = varNames ps) \<and>
   (wellFormed ps \<and> list_all wellFormed pss \<and> findVersion vs node = Some v \<and>
    ver_content v = render ps \<and>
    map msg_content (case ver_messages v of None \<Rightarrow> [] | Some ms \<Rightarrow> ms) = map render pss \<longrightarrow>
    versionVariables vs node = varNames ps @ concat (map varNames pss))"
proof (intro conjI impI)
  assume "wellFormed ps"
  then show "getVariables (render ps) = varNames ps"
    by (rule getVariables_render)
next
  assume a: "wellFormed ps \<and> list_all wellFormed pss \<and> findVersion vs node = Some v \<and>
    ver_content v = render ps \<and>
    map msg_content (case ver_messages v of None \<Rightarrow> [] | Some ms \<Rightarrow> ms) = map render pss"
  then have c: "getVariables (ver_content v) = varNames ps"
    by (simp add: getVariables_render)
  show "versionVariables vs node = varNames ps @ concat (map varNames pss)"
  proof (cases "ver_messages v")
    case None
    with a c show ?thesis
      by (simp add: versionVariables_def)
  next
    case (Some ms)
    with a have "concat (map (\<lambda>m. getVariables (msg_content m)) ms) = concat (map varNames pss)"
      by (intro getVariables_messages) simp_all
    with a c Some show ?thesis
      by (simp add: versionVariables_def)
  qed
qed

theorem getVariables_lists_every_occurrence_witness:
  "wellFormed [Text ''Compare '', Var ''a'', Text '' with '', Var ''a''] \<and>
   list_all wellFormed [[Text ''Also '', Var ''a'', Text '' and '', Var ''b'']] \<and>
   findVersion [chatVersion] generateNode = Some chatVersion \<and>
   getVariables ''Compare {{a}} with {{a}}'' = [''a'', ''a''] \<and>
   versionVariables [chatVersion] generateNode = [''a'', ''a'', ''a'', ''b'']"
  using getVariables_lists_every_occurrence
          [of "[Text ''Compare '', Var ''a'', Text '' with '', Var ''a'']"
              "[[Text ''Also '', Var ''a'', Text '' and '', Var ''b'']]"
              "[chatVersion]" generateNode chatVersion]
  by (simp add: wellFormed_def isName_def render_def placeholder_def chatVersion_def
        summarizeVersion_def generateNode_def noData_def findVersion_def)

text \<open>The claim as stated fails: the name \<^verbatim>\<open>a\<close> is returned twice.\<close>

theorem getVariables_duplicates_counterexample:
  "\<not> distinct (getVariables ''Compare {{a}} with {{a}}'')"
  by (simp add: getVariables_def matchAt_def)

text \<open>What a well-formed template excludes: literal text that ends with an opening
  brace or has two of them in a row, and a name with two of them in a row, are not
  the pieces that the engine finds.\<close>

lemma getVariables_other_pieces:
  "getVariables (render [Text ''a{'', Var ''n'']) = [''{n'']"
  "getVariables (render [Text ''{{a'', Text ''}}'']) = [''a'']"
  "getVariables (render [Var ''a{{b'']) = [''ab'']"
  by (simp_all add: getVariables_def matchAt_def render_def placeholder_def)

subsection \<open>Filling a template\<close>

lemma noOpening_no_brace: "CHR ''{'' \<notin> set s \<Longrightarrow> noOpening s"
  by (induction s rule: noOpening.induct) auto

lemma plainText_no_brace: "CHR ''{'' \<notin> set s \<Longrightarrow> plainText s"
  by (induction s rule: plainText.induct) auto

lemma plainName_no_brace: "plainName k \<Longrightarrow> CHR ''{'' \<notin> set k \<and> CHR ''}'' \<notin> set k \<and> k \<noteq> []"
  by (auto simp: plainName_def regExpSyntax_def list_all_iff)

lemma isName_plainName: "plainName k \<Longrightarrow> isName k"
  using plainName_no_brace [of k] by (simp add: isName_def noOpening_no_brace)

lemma take_prefix: "take (length p) s = p \<longleftrightarrow> (\<exists>t. s = p @ t)"
  by (metis append_eq_conv_conj)

lemma name_before_brace:
  "CHR ''}'' \<notin> set k \<Longrightarrow> CHR ''}'' \<notin> set n \<Longrightarrow> k @ CHR ''}'' # x = n @ CHR ''}'' # y \<Longrightarrow> k = n"
  using run_until_brace [of k x] run_until_brace [of n y] by metis

lemma placeholder_prefix:
  assumes "isName k" "isName n" "take (length (placeholder k)) (placeholder n @ rest) = placeholder k"
  shows "k = n"
proof -
  from assms(3) obtain t where "placeholder n @ rest = placeholder k @ t"
    using take_prefix by blast
  then have "k @ CHR ''}'' # (CHR ''}'' # t) = n @ CHR ''}'' # (CHR ''}'' # rest)"
    by (simp add: placeholder_def)
  with assms(1,2) show ?thesis
    by (auto simp: isName_def dest: name_before_brace)
qed

lemma literalReplace_text:
  "plainText s \<Longrightarrow>
     literalReplace (placeholder k) (s @ rest) v = s @ literalReplace (placeholder k) rest v"
  by (induction s rule: plainText.induct) (auto simp: placeholder_def)

lemma literalReplace_same:
  "literalReplace (placeholder k) (placeholder k @ rest) v = v @ literalReplace (placeholder k) rest v"
proof -
  have "placeholder k @ rest = CHR ''{'' # (CHR ''{'' # k @ ''}}'' @ rest)"
    by (simp add: placeholder_def)
  moreover have "placeholder k \<noteq> []"
    by (simp add: placeholder_def)
  moreover have "take (length (placeholder k)) (placeholder k @ rest) = placeholder k"
    by simp
  moreover have "drop (length (placeholder k)) (placeholder k @ rest) = rest"
    by simp
  ultimately show ?thesis
    by (metis literalReplace.simps(2))
qed

lemma literalReplace_other:
  assumes "plainName k" "plainName n" "n \<noteq> k"
  shows "literalReplace (placeholder k) (placeholder n @ rest) v =
         placeholder n @ literalReplace (placeholder k) rest v"
proof -
  let ?p = "placeholder k"
  let ?tail = "CHR ''{'' # n @ ''}}'' @ rest"
  note nb = plainName_no_brace [OF assms(2)]
  have e: "placeholder n @ rest = CHR ''{'' # ?tail"
    by (simp add: placeholder_def)
  from assms have "take (length ?p) (placeholder n @ rest) \<noteq> ?p"
    using placeholder_prefix isName_plainName by blast
  then have "literalReplace ?p (placeholder n @ rest) v = CHR ''{'' # literalReplace ?p ?tail v"
    unfolding e by simp
  also from nb have "take (length ?p) ?tail \<noteq> ?p"
    by (cases n) (auto simp: placeholder_def)
  then have "literalReplace ?p ?tail v = CHR ''{'' # literalReplace ?p ((n @ ''}}'') @ rest) v"
    by simp
  also from nb have "literalReplace ?p ((n @ ''}}'') @ rest) v =
      (n @ ''}}'') @ literalReplace ?p rest v"
    by (intro literalReplace_text plainText_no_brace) simp
  finally show ?thesis
    by (simp add: placeholder_def)
qed

lemma literalReplace_render:
  assumes "plainName k"
  shows "wellFormed ps \<Longrightarrow> \<forall>n\<in>set (varNames ps). plainName n \<Longrightarrow>
    literalReplace (placeholder k) (render ps) v = render (map (replacePiece k v) ps)"
proof (induction ps)
  case Nil
  then show ?case by (simp add: render_def)
next
  case (Cons p ps)
  have r: "render (q # qs) = renderPiece q @ render qs" for q qs
    by (simp add: render_def)
  show ?case
  proof (cases p)
    case (Text s)
    with Cons.prems Cons.IH show ?thesis
      by (simp add: r wellFormed_def literalReplace_text)
  next
    case (Var n)
    with Cons.prems have n: "plainName n" by simp
    from Var Cons.prems Cons.IH
    have ih: "literalReplace (placeholder k) (render ps) v = render (map (replacePiece k v) ps)"
      by (simp add: wellFormed_def)
    show ?thesis
    proof (cases "n = k")
      case True
      with Var ih show ?thesis
        by (simp add: r literalReplace_same)
    next
      case False
      with Var ih n assms show ?thesis
        by (simp add: r literalReplace_other)
    qed
  qed
qed

lemma wellFormed_replacePiece:
  "wellFormed ps \<Longrightarrow> plainText x \<Longrightarrow> wellFormed (map (replacePiece v x) ps)"
proof (induction ps)
  case Nil
  then show ?case by (simp add: wellFormed_def)
next
  case (Cons p ps)
  then show ?case by (cases p) (auto simp: wellFormed_def)
qed

lemma varNames_replacePiece: "set (varNames (map (replacePiece v x) ps)) \<subseteq> set (varNames ps)"
  by (induction ps rule: varNames.induct) auto

lemma fillKnown_replacePiece:
  assumes "val v = Some x"
  shows "map (fillKnown val vs) (map (replacePiece v x) ps) = map (fillKnown val (v # vs)) ps"
proof -
  have "fillKnown val vs (replacePiece v x p) = fillKnown val (v # vs) p" for p
    using assms by (cases p) auto
  then show ?thesis by simp
qed

lemma fillKnown_unknown:
  assumes "val v = None"
  shows "map (fillKnown val (v # vs)) ps = map (fillKnown val vs) ps"
proof -
  have "fillKnown val (v # vs) p = fillKnown val vs p" for p
    using assms by (cases p) auto
  then show ?thesis by simp
qed

lemma fillKnown_Nil: "map (fillKnown val []) ps = ps"
proof (induction ps)
  case Nil
  then show ?case by simp
next
  case (Cons p ps)
  then show ?case by (cases p) auto
qed

lemma fillTemplate_render:
  assumes lit: "literalOnPlain rt"
  shows "wellFormed ps \<Longrightarrow> \<forall>n\<in>set (varNames ps). plainName n \<Longrightarrow> \<forall>n\<in>set vs. plainName n \<Longrightarrow>
    \<forall>n\<in>set vs. \<forall>x. endValue a ctx node n = Some x \<longrightarrow> (\<exists>s. x = Str s \<and> plainValue s) \<Longrightarrow>
    fillTemplate rt a ctx node vs (render ps) =
      Inr (render (map (fillKnown (endText a ctx node) vs) ps))"
proof (induction vs arbitrary: ps)
  case Nil
  then show ?case by (simp add: fillKnown_Nil)
next
  case (Cons v vs)
  let ?val = "endText a ctx node"
  from Cons.prems have v: "plainName v" and vs: "\<forall>n\<in>set vs. plainName n"
    and xs: "\<forall>n\<in>set vs. \<forall>x. endValue a ctx node n = Some x \<longrightarrow> (\<exists>s. x = Str s \<and> plainValue s)"
    by auto
  show ?case
  proof (cases "endValue a ctx node v")
    case None
    then have n: "?val v = None"
      by (simp add: endText_def)
    from Cons.IH [OF Cons.prems(1,2) vs xs] show ?thesis
      by (simp only: fillTemplate.simps None option.case fillKnown_unknown [of ?val v, OF n])
  next
    case (Some y)
    with Cons.prems(4) obtain x where y: "y = Str x" and x: "plainValue x"
      by auto
    from Some y have e: "?val v = Some x"
      by (simp add: endText_def)
    let ?ps = "map (replacePiece v x) ps"
    from x v lit have "regExpReplace rt (placeholder v) (render ps) (Str x) =
        Inr (literalReplace (placeholder v) (render ps) x)"
      by (simp add: literalOnPlain_def plainValue_def)
    also have "literalReplace (placeholder v) (render ps) x = render ?ps"
      using v Cons.prems(1,2) by (simp add: literalReplace_render)
    finally have r: "regExpReplace rt (placeholder v) (render ps) (Str x) = Inr (render ?ps)" .
    from x Cons.prems(1) have w: "wellFormed ?ps"
      by (simp add: wellFormed_replacePiece plainValue_def)
    from Cons.prems(2) varNames_replacePiece [of v x ps]
    have "\<forall>n\<in>set (varNames ?ps). plainName n"
      by blast
    from Cons.IH [OF w this vs xs]
    have "fillTemplate rt a ctx node vs (render ?ps) =
        Inr (render (map (fillKnown ?val vs) ?ps))" .
    also have "map (fillKnown ?val vs) ?ps = map (fillKnown ?val (v # vs)) ps"
      by (rule fillKnown_replacePiece [of ?val v x, OF e])
    finally show ?thesis
      by (simp only: fillTemplate.simps Some y r option.case sum.case)
  qed
qed

lemma render_fillKnown:
  "set (varNames ps) \<subseteq> set vs \<Longrightarrow> render (map (fillKnown val vs) ps) = filled val ps"
  by (induction ps rule: varNames.induct)
     (auto simp: render_def filled_def split: option.splits)

lemma filled_cong:
  "\<forall>n\<in>set (varNames ps). f n = g n \<Longrightarrow> filled f ps = filled g ps"
  by (induction ps rule: varNames.induct) (auto simp: filled_def)

lemma executeEnd_render:
  assumes "literalOnPlain rt" and "outputTemplate (node_data node) = Some (render ps)"
    and "wellFormed ps" and "\<forall>n\<in>set (varNames ps). plainName n"
    and "\<forall>n\<in>set (varNames ps). \<forall>x.
           endValue a (executionContext st) node n = Some x \<longrightarrow> (\<exists>s. x = Str s \<and> plainValue s)"
  shows "executeEnd rt a st node =
    Inr \<lparr>ex_output = filled (endText a (executionContext st) node) ps,
         ex_context = executionContext st,
         ex_outputs = (log_outputs (runLog st))
           (''final'' \<mapsto> filled (endText a (executionContext st) node) ps),
         ex_genCalls = genCalls st\<rparr>"
proof -
  have "fillTemplate rt a (executionContext st) node (varNames ps) (render ps) =
      Inr (render (map (fillKnown (endText a (executionContext st) node) (varNames ps)) ps))"
    using assms by (intro fillTemplate_render) auto
  then show ?thesis
    using assms(2,3)
    by (simp add: executeEnd_def orEmpty_def getVariables_render render_fillKnown)
qed

lemma loop_done: "remainingNodes st = [] \<Longrightarrow> loop rt a k st = st"
  by (cases k) simp_all

lemma literalOnPlain_oceans: "literalOnPlain oceansRuntime"
  by (simp add: literalOnPlain_def oceansRuntime_def replaceBy_def)


subsection \<open>One pass through the loop\<close>

lemma set_splice1: "set (splice1 i xs) \<subseteq> set xs"
  by (auto simp: splice1_def dest: in_set_takeD in_set_dropD)

lemma executeNode_context:
  assumes "executeNode rt a st n = Inr ex"
  shows "(\<forall>k. k \<notin> set (writtenKeys n) \<longrightarrow> ex_context ex k = executionContext st k) \<and>
         dom (executionContext st) \<subseteq> dom (ex_context ex)"
proof (cases "node_type n")
  case Start
  with assms show ?thesis by (auto simp: executeNode_def)
next
  case End
  with assms show ?thesis
    by (auto simp: executeNode_def executeEnd_def Let_def split: sum.splits)
next
  case Llm
  with assms show ?thesis
    by (auto simp: executeNode_def executeLlm_def writtenKeys_def contextSet_def Let_def
        split: option.splits sum.splits if_splits)
qed

lemma executeNode_outputs:
  "node_type n \<noteq> End \<Longrightarrow> executeNode rt a st n = Inr ex \<Longrightarrow>
     ex_outputs ex = log_outputs (runLog st)"
  by (cases "node_type n")
     (auto simp: executeNode_def executeLlm_def Let_def split: option.splits sum.splits)

lemma catchBlock_step_ids:
  "step_nodeId ` set (log_steps (runLog (catchBlock rt a st n t e))) \<subseteq>
     insert (node_id n) (step_nodeId ` set (log_steps (runLog st)))"
  by (auto simp: catchBlock_def pushStep_def errorStep_def split: option.splits Thrown.splits)

text \<open>A pass either finds no ready node and changes nothing, or selects the first
  ready node; then, whether the pass ends with \<^verbatim>\<open>break\<close> or not, that node is no
  longer pending, only its keys of the context are assigned, and only a step of
  that node is logged.\<close>

lemma iteration_flow:
  obtains "readyNodeIndex a st = None" and "iteration rt a st = Break st"
  | i where "readyNodeIndex a st = Some i" and "i < length (remainingNodes st)"
    and "isReady a st (remainingNodes st ! i)"
    and "remainingNodes (flowState (iteration rt a st)) = splice1 i (remainingNodes st)"
    and "processedNodes st \<subseteq> processedNodes (flowState (iteration rt a st))"
    and "processedNodes (flowState (iteration rt a st)) \<subseteq>
           insert (node_id (remainingNodes st ! i)) (processedNodes st)"
    and "dom (executionContext st) \<subseteq> dom (executionContext (flowState (iteration rt a st)))"
    and "\<forall>k. k \<notin> set (writtenKeys (remainingNodes st ! i)) \<longrightarrow>
           executionContext (flowState (iteration rt a st)) k = executionContext st k"
    and "step_nodeId ` set (log_steps (runLog (flowState (iteration rt a st)))) \<subseteq>
           insert (node_id (remainingNodes st ! i)) (step_nodeId ` set (log_steps (runLog st)))"
    and "node_type (remainingNodes st ! i) \<noteq> End \<longrightarrow>
           log_outputs (runLog (flowState (iteration rt a st))) = log_outputs (runLog st)"
proof (cases "readyNodeIndex a st")
  case None
  then have "iteration rt a st = Break st"
    by (simp add: iteration_def)
  with None show thesis by (rule that(1))
next
  case (Some i)
  let ?node = "remainingNodes st ! i"
  let ?st' = "flowState (iteration rt a st)"
  from Some have i: "i < length (remainingNodes st)" "isReady a st ?node"
    by (auto simp: readyNodeIndex_def dest: findIndex_Some)
  have "remainingNodes ?st' = splice1 i (remainingNodes st) \<and>
      processedNodes st \<subseteq> processedNodes ?st' \<and>
      processedNodes ?st' \<subseteq> insert (node_id ?node) (processedNodes st) \<and>
      dom (executionContext st) \<subseteq> dom (executionContext ?st') \<and>
      (\<forall>k. k \<notin> set (writtenKeys ?node) \<longrightarrow> executionContext ?st' k = executionContext st k) \<and>
      step_nodeId ` set (log_steps (runLog ?st')) \<subseteq>
        insert (node_id ?node) (step_nodeId ` set (log_steps (runLog st))) \<and>
      (node_type ?node \<noteq> End \<longrightarrow> log_outputs (runLog ?st') = log_outputs (runLog st))"
  proof (cases "iteration rt a st")
    case (Break st')
    then have f: "?st' = st'" by simp
    from Break show ?thesis
    proof (rule iteration_Break)
      assume "readyNodeIndex a st = None"
      with Some show ?thesis by simp
    next
      fix j thrown
      assume "readyNodeIndex a st = Some j"
        and "st' = st\<lparr>remainingNodes := splice1 j (remainingNodes st),
                   callbackCalls := notified a (callbackCalls st),
                   raised := Some (FromCallback thrown)\<rparr>"
      with Some show ?thesis unfolding f by auto
    next
      fix j err
      assume j: "readyNodeIndex a st = Some j"
        and s: "st' = catchBlock rt a
           (st\<lparr>remainingNodes := splice1 j (remainingNodes st),
               clockReads := Suc (clockReads st),
               callbackCalls := notified a (callbackCalls st)\<rparr>)
           (remainingNodes st ! j) (dateNow rt (clockReads st)) err"
      from j Some have ji: "j = i" by simp
      from catchBlock_step_ids
             [of rt a "st\<lparr>remainingNodes := splice1 j (remainingNodes st),
               clockReads := Suc (clockReads st),
               callbackCalls := notified a (callbackCalls st)\<rparr>" "remainingNodes st ! j"
               "dateNow rt (clockReads st)" err]
      have "step_nodeId ` set (log_steps (runLog st')) \<subseteq>
          insert (node_id ?node) (step_nodeId ` set (log_steps (runLog st)))"
        unfolding s ji by simp
      then show ?thesis
        unfolding f by (auto simp: s ji)
    next
      fix j ex err
      assume j: "readyNodeIndex a st = Some j"
        and ex: "executeNode rt a st (remainingNodes st ! j) = Inr ex"
        and s: "st' = catchBlock rt a
           (st\<lparr>remainingNodes := splice1 j (remainingNodes st),
               clockReads := Suc (clockReads st),
               executionContext := ex_context ex,
               runLog := (runLog st)\<lparr>log_outputs := ex_outputs ex\<rparr>,
               genCalls := ex_genCalls ex,
               callbackCalls := notified a (notified a (callbackCalls st))\<rparr>)
           (remainingNodes st ! j) (dateNow rt (clockReads st)) err"
      from j Some have ji: "j = i" by simp
      from catchBlock_step_ids
             [of rt a "st\<lparr>remainingNodes := splice1 j (remainingNodes st),
               clockReads := Suc (clockReads st),
               executionContext := ex_context ex,
               runLog := (runLog st)\<lparr>log_outputs := ex_outputs ex\<rparr>,
               genCalls := ex_genCalls ex,
               callbackCalls := notified a (notified a (callbackCalls st))\<rparr>"
               "remainingNodes st ! j" "dateNow rt (clockReads st)" err]
      have "step_nodeId ` set (log_steps (runLog st')) \<subseteq>
          insert (node_id ?node) (step_nodeId ` set (log_steps (runLog st)))"
        unfolding s ji by simp
      moreover from ex ji have "node_type ?node \<noteq> End \<longrightarrow> ex_outputs ex = log_outputs (runLog st)"
        by (auto dest: executeNode_outputs)
      ultimately show ?thesis
        unfolding f using executeNode_context [OF ex] by (auto simp: s ji)
    qed
  next
    case (Continue st')
    then have f: "?st' = st'" by simp
    from Continue show ?thesis
    proof (rule iteration_Continue)
      fix j ex
      assume j: "readyNodeIndex a st = Some j"
        and ex: "executeNode rt a st (remainingNodes st ! j) = Inr ex"
        and c: "executionContext st' = ex_context ex"
        and p: "processedNodes st' = insert (node_id (remainingNodes st ! j)) (processedNodes st)"
        and r: "remainingNodes st' = splice1 j (remainingNodes st)"
        and l: "runLog st' = pushStep (successStep (remainingNodes st ! j) (ex_output ex)
            (dateNow rt (Suc (clockReads st)) - dateNow rt (clockReads st)))
            ((runLog st)\<lparr>log_outputs := ex_outputs ex\<rparr>)"
      from j Some have ji: "j = i" by simp
      from ex ji have "node_type ?node \<noteq> End \<longrightarrow> ex_outputs ex = log_outputs (runLog st)"
        by (auto dest: executeNode_outputs)
      then show ?thesis
        unfolding f using executeNode_context [OF ex] c p r l ji
        by (auto simp: pushStep_def successStep_def)
    qed
  qed
  with Some i show thesis
    by (intro that(2) [of i]) simp_all
qed

lemma loop_Suc_flow:
  "remainingNodes st \<noteq> [] \<Longrightarrow>
     loop rt a (Suc k) st = flowState (iteration rt a st) \<or>
     iteration rt a st = Continue (flowState (iteration rt a st)) \<and>
     loop rt a (Suc k) st = loop rt a k (flowState (iteration rt a st))"
  by (cases "iteration rt a st") simp_all

subsection \<open>The keys of the execution context\<close>

lemma concat_splice1:
  assumes "i < length xs"
  shows "concat (map f xs) =
         concat (map f (take i xs)) @ f (xs ! i) @ concat (map f (drop (Suc i) xs)) \<and>
         concat (map f (splice1 i xs)) =
         concat (map f (take i xs)) @ concat (map f (drop (Suc i) xs))"
proof -
  from assms have "xs = take i xs @ xs ! i # drop (Suc i) xs"
    by (rule id_take_nth_drop)
  then have "concat (map f xs) = concat (map f (take i xs @ xs ! i # drop (Suc i) xs))"
    by simp
  then show ?thesis
    by (simp add: splice1_def)
qed

lemma keysFresh_step:
  assumes "keysFresh st"
  shows "keysFresh (flowState (iteration rt a st)) \<and>
    (\<forall>k x. executionContext st k = Some x \<longrightarrow>
       executionContext (flowState (iteration rt a st)) k = Some x)"
proof (rule iteration_flow [of a st rt])
  assume "iteration rt a st = Break st"
  with assms show ?thesis by simp
next
  fix i
  let ?xs = "remainingNodes st"
  let ?st' = "flowState (iteration rt a st)"
  assume i: "i < length ?xs" and r: "remainingNodes ?st' = splice1 i ?xs"
    and w: "\<forall>k. k \<notin> set (writtenKeys (?xs ! i)) \<longrightarrow> executionContext ?st' k = executionContext st k"
  note c = concat_splice1 [OF i, of writtenKeys]
  from assms(1) have d: "distinct (concat (map writtenKeys ?xs))"
    and e: "dom (executionContext st) \<inter> set (concat (map writtenKeys ?xs)) = {}"
    by (simp_all add: keysFresh_def)
  from e c have old: "k \<in> dom (executionContext st) \<Longrightarrow> k \<notin> set (writtenKeys (?xs ! i))" for k
    by auto
  have new: "k \<in> dom (executionContext ?st') \<Longrightarrow>
      k \<in> dom (executionContext st) \<or> k \<in> set (writtenKeys (?xs ! i))" for k
    using w by (auto simp: dom_def)
  from d c have d': "distinct (concat (map writtenKeys (splice1 i ?xs)))"
    and x: "set (writtenKeys (?xs ! i)) \<inter> set (concat (map writtenKeys (splice1 i ?xs))) = {}"
    by auto
  from e c have "dom (executionContext st) \<inter> set (concat (map writtenKeys (splice1 i ?xs))) = {}"
    by auto
  with x new have "dom (executionContext ?st') \<inter> set (concat (map writtenKeys (splice1 i ?xs))) = {}"
    by blast
  with d' r have "keysFresh ?st'"
    by (simp add: keysFresh_def)
  moreover from old w have "executionContext st k = Some x \<Longrightarrow> executionContext ?st' k = Some x"
    for k x
    by (metis domI)
  ultimately show ?thesis by blast
qed

lemma keys_step:
  "dom (executionContext st) \<subseteq> dom (executionContext (flowState (iteration rt a st))) \<and>
   processedNodes st \<subseteq> processedNodes (flowState (iteration rt a st))"
  by (rule iteration_flow [of a st rt]) simp_all

lemma writtenKeys_filter:
  "concat (map writtenKeys (filter (\<lambda>n. node_type n \<noteq> Start) ns)) = concat (map writtenKeys ns)"
  by (induction ns) (auto simp: writtenKeys_def)

lemma runState_0: "runState rt a 0 = Some st \<Longrightarrow> st = initialState rt a \<and> raised st = None"
  by (auto split: if_splits)

lemma initialState_returned:
  assumes "raised (initialState rt a) = None"
  shows "executionContext (initialState rt a) = map_of (startInputs a)"
    and "remainingNodes (initialState rt a) = filter (\<lambda>n. node_type n \<noteq> Start) (nodes a)"
    and "log_outputs (runLog (initialState rt a)) = Map.empty"
    and "processedNodes (initialState rt a) \<subseteq> node_id ` set (nodes a)"
    and "step_nodeId ` set (log_steps (runLog (initialState rt a))) \<subseteq>
           node_id ` {n \<in> set (nodes a). node_type n = Start}"
proof -
  have "executionContext (initialState rt a) = map_of (startInputs a) \<and>
    remainingNodes (initialState rt a) = filter (\<lambda>n. node_type n \<noteq> Start) (nodes a) \<and>
    log_outputs (runLog (initialState rt a)) = Map.empty \<and>
    processedNodes (initialState rt a) \<subseteq> node_id ` set (nodes a) \<and>
    step_nodeId ` set (log_steps (runLog (initialState rt a))) \<subseteq>
      node_id ` {n \<in> set (nodes a). node_type n = Start}"
  proof (cases "find (\<lambda>n. node_type n = Start) (nodes a)")
    case None
    then show ?thesis
      by (simp add: initialState_def Let_def)
  next
    case (Some s)
    then have s: "s \<in> set (nodes a)" "node_type s = Start"
      by (auto simp: find_Some_iff)
    show ?thesis
    proof (cases "notify a 0 (node_id s) (Finished Success)
        (Some (jsonStringify rt (startInputs a)))")
      case None
      with Some s show ?thesis
        by (simp add: initialState_def Let_def pushStep_def successStep_def)
    next
      case thrown: (Some t)
      with Some assms show ?thesis
        by (simp add: initialState_def Let_def)
    qed
  qed
  then show "executionContext (initialState rt a) = map_of (startInputs a)"
    and "remainingNodes (initialState rt a) = filter (\<lambda>n. node_type n \<noteq> Start) (nodes a)"
    and "log_outputs (runLog (initialState rt a)) = Map.empty"
    and "processedNodes (initialState rt a) \<subseteq> node_id ` set (nodes a)"
    and "step_nodeId ` set (log_steps (runLog (initialState rt a))) \<subseteq>
           node_id ` {n \<in> set (nodes a). node_type n = Start}"
    by simp_all
qed

lemma keysFresh_initial:
  "distinctKeys a \<Longrightarrow> raised (initialState rt a) = None \<Longrightarrow> keysFresh (initialState rt a)"
  by (auto simp: distinctKeys_def keysFresh_def initialState_returned writtenKeys_filter
        dom_map_of_conv_image_fst)

lemma runState_Suc:
  assumes "runState rt a (Suc j) = Some st'"
  obtains st where "runState rt a j = Some st" and "j < 100" and "remainingNodes st \<noteq> []"
    and "iteration rt a st = Continue st'"
  using assms by (auto split: option.splits if_splits Flow.splits)

lemma runState_keysFresh: "distinctKeys a \<Longrightarrow> runState rt a j = Some st \<Longrightarrow> keysFresh st"
proof (induction j arbitrary: st)
  case 0
  from runState_0 [OF 0(2)] have "st = initialState rt a" "raised (initialState rt a) = None"
    by auto
  with 0(1) show ?case
    by (simp add: keysFresh_initial)
next
  case (Suc j)
  from Suc.prems(2) obtain st0 where st0: "runState rt a j = Some st0"
    and it: "iteration rt a st0 = Continue st"
    by (rule runState_Suc)
  from keysFresh_step [OF Suc.IH [OF Suc.prems(1) st0], of rt a] it show ?case
    by simp
qed

lemma loop_keeps_values:
  "keysFresh st \<Longrightarrow> executionContext st k = Some x \<Longrightarrow>
     executionContext (loop rt a n st) k = Some x"
proof (induction n arbitrary: st)
  case 0
  then show ?case by simp
next
  case (Suc n)
  show ?case
  proof (cases "remainingNodes st = []")
    case True
    with Suc.prems show ?thesis by simp
  next
    case False
    from keysFresh_step [OF Suc.prems(1), of rt a] Suc.prems(2)
    have s: "keysFresh (flowState (iteration rt a st))"
      "executionContext (flowState (iteration rt a st)) k = Some x"
      by auto
    from loop_Suc_flow [OF False, of rt a n] s Suc.IH [OF s] show ?thesis
      by auto
  qed
qed

lemma loop_keeps_keys:
  "dom (executionContext st) \<subseteq> dom (executionContext (loop rt a n st)) \<and>
   processedNodes st \<subseteq> processedNodes (loop rt a n st)"
proof (induction n arbitrary: st)
  case 0
  then show ?case by simp
next
  case (Suc n)
  show ?case
  proof (cases "remainingNodes st = []")
    case True
    then show ?thesis by simp
  next
    case False
    let ?st' = "flowState (iteration rt a st)"
    note s = keys_step [of st rt a]
    from s Suc.IH [of ?st']
    have "dom (executionContext st) \<subseteq> dom (executionContext (loop rt a n ?st')) \<and>
        processedNodes st \<subseteq> processedNodes (loop rt a n ?st')"
      by (meson order_trans)
    moreover from loop_Suc_flow [OF False, of rt a n]
    have "loop rt a (Suc n) st = ?st' \<or> loop rt a (Suc n) st = loop rt a n ?st'"
      by blast
    ultimately show ?thesis
      using s by (elim disjE) (simp_all only:)
  qed
qed

lemma runState_keeps:
  assumes "j \<le> j'" and "runState rt a j = Some st" and "runState rt a j' = Some st'"
  shows "dom (executionContext st) \<subseteq> dom (executionContext st') \<and>
         processedNodes st \<subseteq> processedNodes st' \<and>
         (distinctKeys a \<longrightarrow>
            (\<forall>k x. executionContext st k = Some x \<longrightarrow> executionContext st' k = Some x))"
  using assms
proof (induction j' arbitrary: st' rule: dec_induct)
  case base
  then show ?case by simp
next
  case (step n)
  from step.prems(2) obtain st0 where st0: "runState rt a n = Some st0"
    and it: "iteration rt a st0 = Continue st'"
    by (rule runState_Suc)
  note ih = step.IH [OF step.prems(1) st0]
  from keys_step [of st0 rt a] it have "dom (executionContext st0) \<subseteq> dom (executionContext st')"
    "processedNodes st0 \<subseteq> processedNodes st'"
    by simp_all
  moreover have "\<forall>k x. executionContext st0 k = Some x \<longrightarrow> executionContext st' k = Some x"
    if "distinctKeys a"
    using keysFresh_step [OF runState_keysFresh [OF that st0], of rt a] it by simp
  ultimately show ?case
    using ih by blast
qed

text \<open>
  Claim C4, amended. A key of the execution context is never removed: once it has
  a value, it has one in every later state of the run and at the end. Its value
  is kept when the names of the start inputs, the declared output variables and
  the raw output keys of the generation nodes are pairwise distinct; the engine
  itself does not prevent a node from assigning a key that already has a value.
\<close>

theorem written_key_is_kept:
  assumes "runState rt a j = Some st" and "runState rt a j' = Some st'" and "j \<le> j'"
    and "executionContext st k = Some x"
  shows "executionContext st' k \<noteq> None \<and> executionContext (finalState rt a) k \<noteq> None \<and>
         (distinctKeys a \<longrightarrow>
            executionContext st' k = Some x \<and> executionContext (finalState rt a) k = Some x)"
proof -
  note keeps = runState_keeps [OF assms(3,1,2)]
  have fin: "finalState rt a = loop rt a (100 - j') st'"
    by (rule final_runState [OF assms(2)])
  from keeps assms(4) have 1: "executionContext st' k \<noteq> None"
    by blast
  with loop_keeps_keys [of st' rt a "100 - j'"] fin
  have 2: "executionContext (finalState rt a) k \<noteq> None"
    by auto
  have "executionContext st' k = Some x \<and> executionContext (finalState rt a) k = Some x"
    if d: "distinctKeys a"
  proof -
    from keeps d assms(4) have "executionContext st' k = Some x"
      by blast
    with loop_keeps_values [OF runState_keysFresh [OF d assms(2)] this] fin show ?thesis
      by simp
  qed
  with 1 2 show ?thesis by blast
qed


lemmas engine_defs = executeWorkflowEngine_def finalState_def loop_Suc_pred iteration_def
  catchBlock_def notify_def notified_def executeNode_def executeLlm_def executeEnd_def
  modelConfig_def splice1_def pushStep_def successStep_def errorStep_def endValue_def
  initialState_def nodeInputs_def llmInput_def objectEntries_def arrayIndex_def isDigit_def
  placeholder_def rawKey_def contextSet_def orEmptyValue_def truthyValue_def Let_def

theorem written_key_is_kept_witness:
  "runState oceansRuntime oceansArgs 0 = Some (initialState oceansRuntime oceansArgs) \<and>
   executionContext (initialState oceansRuntime oceansArgs) ''topic'' = Some ''oceans'' \<and>
   distinctKeys oceansArgs \<and>
   executionContext (finalState oceansRuntime oceansArgs) ''topic'' = Some ''oceans''"
proof -
  let ?st = "initialState oceansRuntime oceansArgs"
  have "raised ?st = None"
    by (simp add: initialState_def notify_def scenario_defs)
  then have s: "runState oceansRuntime oceansArgs 0 = Some ?st"
    by simp
  have c: "executionContext ?st ''topic'' = Some ''oceans''"
    by (simp add: initialState_def notify_def Let_def scenario_defs)
  have d: "distinctKeys oceansArgs"
    by (simp add: distinctKeys_def writtenKeys_def rawKey_def truthy_def orEmpty_def scenario_defs)
  from written_key_is_kept [OF s s _ c] s c d show ?thesis
    by simp
qed

text \<open>The claim as stated fails: a generation node whose output variable is the name
  of a start input overwrites the value of that input.\<close>

theorem written_key_overwritten_counterexample:
  "executionContext (initialState oceansRuntime overwriteArgs) ''topic'' = Some ''oceans'' \<and>
   executionContext (finalState oceansRuntime overwriteArgs) ''topic'' =
     Some ''Oceans cover 70% of Earth.''"
  by (simp add: engine_defs readiness_defs overwriteArgs_def scenario_defs)

subsection \<open>The scenario of the specification\<close>

text \<open>Three steps and the final output \<^verbatim>\<open>Result: Oceans cover 70% of Earth.\<close>\<close>

lemma oceans_scenario:
  "executeWorkflowEngine oceansRuntime oceansArgs =
     Inr \<lparr>log_id = 0, log_timestamp = 1, log_status = Success,
          log_inputs = [(''topic'', ''oceans'')],
          log_outputs = [''final'' \<mapsto> ''Result: Oceans cover 70% of Earth.''],
          log_steps =
            [\<lparr>step_nodeId = ''start'', step_nodeName = ''Entry'', step_status = Success,
              step_output = Some (plainJson [(''topic'', ''oceans'')]), step_latency = 0\<rparr>,
             \<lparr>step_nodeId = ''g1'', step_nodeName = ''Generate'', step_status = Success,
              step_output = Some ''Oceans cover 70% of Earth.'', step_latency = 1\<rparr>,
             \<lparr>step_nodeId = ''end'', step_nodeName = ''Exit'', step_status = Success,
              step_output = Some ''Result: Oceans cover 70% of Earth.'', step_latency = 1\<rparr>]\<rparr>"
  by (simp add: engine_defs readiness_defs scenario_defs)

text \<open>The replacements are made one after the other on the whole text: a value
  that contains a placeholder is replaced again. (This is why the statements about
  filled templates ask for values that are plain text.)\<close>

lemma value_with_placeholder_is_replaced_again:
  "map_of (startInputs nestedValueArgs) ''a'' = Some ''{{b}}'' \<and>
   map_of (startInputs nestedValueArgs) ''b'' = Some ''X'' \<and>
   log_outputs (runLog (finalState oceansRuntime nestedValueArgs)) ''final'' = Some ''X X''"
  by (simp add: engine_defs readiness_defs nestedValueArgs_def scenario_defs)

subsection \<open>The model configuration of a generation call\<close>

text \<open>
  Claim C8. Let a generation node refer to a prompt version whose model is the
  identifier of none of the available configurations, and let there be a first
  available configuration. Then \<open>modelConfig\<close> is that first configuration, the
  generation call is made with it, and the node fails only if that call throws:
  otherwise the output of the node is the text the call returns.
\<close>

theorem missing_model_falls_back_to_first:
  assumes "node_type node = Llm"
    and "findVersion (versions a) node = Some version"
    and "\<forall>c\<in>set (availableAPIs a). cfg_id c \<noteq> ver_model version"
    and "availableAPIs a = first # rest"
    and "substitute rt
           (objectEntries (nodeInputs a (executionContext st) node
              (requiredVars (versions a) node)))
           (if truthy (userPromptOverride (node_data node))
            then orEmpty (userPromptOverride (node_data node)) else ver_content version)
         = Inr prompt"
  shows "modelConfig (availableAPIs a) version = Some first \<and>
         (case generateContent rt (genCalls st) (Some first) prompt
                 (if includeSystemPrompt (node_data node) \<noteq> Some False
                  then ver_systemInstruction version else [])
                 (ver_config version) (attachments a) of
            Inl err \<Rightarrow> executeNode rt a st node = Inl err
          | Inr res \<Rightarrow>
              (\<exists>ex. executeNode rt a st node = Inr ex \<and> ex_output ex = res_text res))"
proof -
  from assms(3) have "find (\<lambda>c. cfg_id c = ver_model version) (availableAPIs a) = None"
    by (auto simp: find_None_iff)
  with assms(4) have m: "modelConfig (availableAPIs a) version = Some first"
    by (simp add: modelConfig_def)
  with assms(1,2,5) show ?thesis
    by (auto simp: executeNode_def executeLlm_def Let_def split: sum.splits)
qed

text \<open>With the configurations \<^verbatim>\<open>flash\<close> and \<^verbatim>\<open>pro\<close> and a prompt version that names
  the model \<^verbatim>\<open>gemini\<close>, the call is made with \<^verbatim>\<open>flash\<close> and the node succeeds.\<close>

theorem missing_model_falls_back_to_first_witness:
  "findVersion (versions apiArgs) generateNode = Some summarizeVersion \<and>
   ver_model summarizeVersion \<notin> set (map cfg_id (availableAPIs apiArgs)) \<and>
   availableAPIs apiArgs = [apiConfig ''flash'', apiConfig ''pro''] \<and>
   (\<exists>ex. executeNode flashOnlyRuntime apiArgs (initialState flashOnlyRuntime apiArgs)
            generateNode = Inr ex \<and> ex_output ex = ''Oceans cover 70% of Earth.'')"
proof -
  let ?st = "initialState flashOnlyRuntime apiArgs"
  have t: "node_type generateNode = Llm"
    by (simp add: generateNode_def)
  have v: "findVersion (versions apiArgs) generateNode = Some summarizeVersion"
    by (simp add: findVersion_def apiArgs_def scenario_defs)
  have m: "\<forall>c\<in>set (availableAPIs apiArgs). cfg_id c \<noteq> ver_model summarizeVersion"
    by (simp add: apiArgs_def apiConfig_def scenario_defs)
  have f: "availableAPIs apiArgs = apiConfig ''flash'' # [apiConfig ''pro'']"
    by (simp add: apiArgs_def scenario_defs)
  have p: "substitute flashOnlyRuntime
           (objectEntries (nodeInputs apiArgs (executionContext ?st) generateNode
              (requiredVars (versions apiArgs) generateNode)))
           (if truthy (userPromptOverride (node_data generateNode))
            then orEmpty (userPromptOverride (node_data generateNode))
            else ver_content summarizeVersion)
         = Inr ''Summarize: oceans''"
    by (simp add: initialState_def notify_def nodeInputs_def llmInput_def objectEntries_def
          arrayIndex_def isDigit_def placeholder_def Let_def readiness_defs apiArgs_def
          flashOnlyRuntime_def scenario_defs)
  have m': "ver_model summarizeVersion \<notin> set (map cfg_id (availableAPIs apiArgs))"
    by (simp add: apiArgs_def apiConfig_def scenario_defs)
  from missing_model_falls_back_to_first [OF t v m f p] v m' f show ?thesis
    by (simp add: flashOnlyRuntime_def apiConfig_def response_def scenario_defs)
qed

lemma flash_scenario:
  "raised (finalState flashOnlyRuntime apiArgs) = None \<and>
   log_status (runLog (finalState flashOnlyRuntime apiArgs)) = Success \<and>
   log_outputs (runLog (finalState flashOnlyRuntime apiArgs)) ''final'' =
     Some ''Result: Oceans cover 70% of Earth.''"
  by (simp add: engine_defs readiness_defs apiArgs_def flashOnlyRuntime_def apiConfig_def
        scenario_defs)

subsection \<open>Two runs on the same graph\<close>

lemma substitute_clock: "substitute (rt\<lparr>dateNow := c\<rparr>) es s = substitute rt es s"
  by (induction es arbitrary: s) (auto split: sum.splits)

lemma fillTemplate_clock:
  "fillTemplate (rt\<lparr>dateNow := c\<rparr>) a ctx n vs s = fillTemplate rt a ctx n vs s"
  by (induction vs arbitrary: s) (auto split: sum.splits option.splits)

lemma executeNode_clock: "executeNode (rt\<lparr>dateNow := c\<rparr>) a st n = executeNode rt a st n"
  by (cases "node_type n")
     (simp_all add: executeNode_def executeLlm_def executeEnd_def substitute_clock
        fillTemplate_clock Let_def split: option.splits sum.splits)

lemma isReady_iff:
  "isReady a st n \<longleftrightarrow> (\<forall>v\<in>set (requiredVars (versions a) n). varAvailable a st n v)"
  by (auto simp: isReady_def Let_def list_all_iff)

lemma readyNodeIndex_same:
  assumes "sameButTime s t"
  shows "readyNodeIndex a s = readyNodeIndex a t"
proof -
  from assms have "varAvailable a s n v = varAvailable a t n v" for n v
    by (simp add: varAvailable_def sameButTime_def split: option.splits)
  then have "isReady a s = isReady a t"
    by (auto simp: isReady_iff)
  with assms show ?thesis
    by (simp add: readyNodeIndex_def sameButTime_def)
qed

lemma executeNode_same:
  assumes "sameButTime s t"
  shows "executeNode rt a s n = executeNode rt a t n"
  using assms by (intro executeNode_state) (simp_all add: sameButTime_def)

lemma catchBlock_same:
  "sameButTime s t \<Longrightarrow>
     sameButTime (catchBlock (rt\<lparr>dateNow := c\<rparr>) a s n x err)
                 (catchBlock (rt\<lparr>dateNow := d\<rparr>) a t n y err)"
  by (cases err)
     (simp_all add: catchBlock_def sameButTime_def pushStep_def errorStep_def stepCore_def
        split: option.splits)

lemma iteration_same:
  assumes "sameButTime s t"
  shows "case iteration (rt\<lparr>dateNow := c\<rparr>) a s of
           Break s' \<Rightarrow> (\<exists>t'. iteration (rt\<lparr>dateNow := d\<rparr>) a t = Break t' \<and> sameButTime s' t')
         | Continue s' \<Rightarrow>
             (\<exists>t'. iteration (rt\<lparr>dateNow := d\<rparr>) a t = Continue t' \<and> sameButTime s' t')"
proof (cases "readyNodeIndex a s")
  case None
  with assms readyNodeIndex_same [OF assms, of a] show ?thesis
    by (simp add: iteration_def)
next
  case (Some i)
  with readyNodeIndex_same [OF assms, of a] have t: "readyNodeIndex a t = Some i"
    by simp
  from assms have r: "remainingNodes s = remainingNodes t"
    and k: "callbackCalls s = callbackCalls t"
    by (simp_all add: sameButTime_def)
  let ?node = "remainingNodes t ! i"
  have e: "executeNode (rt\<lparr>dateNow := c\<rparr>) a s ?node = executeNode (rt\<lparr>dateNow := d\<rparr>) a t ?node"
    using executeNode_same [OF assms] by (simp add: executeNode_clock)
  show ?thesis
  proof (cases "notify a (callbackCalls t) (node_id ?node) Running None")
    case thrown: (Some x)
    with Some t r k assms show ?thesis
      by (simp add: iteration_def Let_def sameButTime_def)
  next
    case running: None
    show ?thesis
    proof (cases "executeNode (rt\<lparr>dateNow := d\<rparr>) a t ?node")
      case (Inl err)
      have "sameButTime
          (catchBlock (rt\<lparr>dateNow := c\<rparr>) a
             (s\<lparr>remainingNodes := splice1 i (remainingNodes s),
                clockReads := Suc (clockReads s),
                callbackCalls := notified a (callbackCalls s)\<rparr>) ?node (c (clockReads s)) err)
          (catchBlock (rt\<lparr>dateNow := d\<rparr>) a
             (t\<lparr>remainingNodes := splice1 i (remainingNodes t),
                clockReads := Suc (clockReads t),
                callbackCalls := notified a (callbackCalls t)\<rparr>) ?node (d (clockReads t)) err)"
        using assms by (intro catchBlock_same) (simp add: sameButTime_def)
      with Some t r k e Inl running show ?thesis
        by (simp add: iteration_def Let_def)
    next
      case (Inr ex)
      show ?thesis
      proof (cases "notify a (notified a (callbackCalls t)) (node_id ?node) (Finished Success)
          (Some (ex_output ex))")
        case returned: None
        with Some t r k e Inr running returned assms show ?thesis
          by (simp add: iteration_def Let_def sameButTime_def pushStep_def successStep_def
                stepCore_def)
      next
        case thrown: (Some x)
        have "sameButTime
            (catchBlock (rt\<lparr>dateNow := c\<rparr>) a
               (s\<lparr>remainingNodes := splice1 i (remainingNodes s),
                  clockReads := Suc (clockReads s),
                  executionContext := ex_context ex,
                  runLog := (runLog s)\<lparr>log_outputs := ex_outputs ex\<rparr>,
                  genCalls := ex_genCalls ex,
                  callbackCalls := notified a (notified a (callbackCalls s))\<rparr>)
               ?node (c (clockReads s)) x)
            (catchBlock (rt\<lparr>dateNow := d\<rparr>) a
               (t\<lparr>remainingNodes := splice1 i (remainingNodes t),
                  clockReads := Suc (clockReads t),
                  executionContext := ex_context ex,
                  runLog := (runLog t)\<lparr>log_outputs := ex_outputs ex\<rparr>,
                  genCalls := ex_genCalls ex,
                  callbackCalls := notified a (notified a (callbackCalls t))\<rparr>)
               ?node (d (clockReads t)) x)"
          using assms by (intro catchBlock_same) (simp add: sameButTime_def)
        with Some t r k e Inr running thrown show ?thesis
          by (simp add: iteration_def Let_def)
      qed
    qed
  qed
qed

lemma loop_same:
  "sameButTime s t \<Longrightarrow>
     sameButTime (loop (rt\<lparr>dateNow := c\<rparr>) a k s) (loop (rt\<lparr>dateNow := d\<rparr>) a k t)"
proof (induction k arbitrary: s t)
  case 0
  then show ?case by simp
next
  case (Suc k)
  then have r: "remainingNodes s = remainingNodes t"
    by (simp add: sameButTime_def)
  show ?case
  proof (cases "remainingNodes s = []")
    case True
    with r Suc.prems show ?thesis by simp
  next
    case False
    show ?thesis
    proof (cases "iteration (rt\<lparr>dateNow := c\<rparr>) a s")
      case (Break s')
      with iteration_same [OF Suc.prems, where rt = rt and c = c and a = a and d = d] False r show ?thesis
        by auto
    next
      case (Continue s')
      with iteration_same [OF Suc.prems, where rt = rt and c = c and a = a and d = d] obtain t'
        where "iteration (rt\<lparr>dateNow := d\<rparr>) a t = Continue t'" "sameButTime s' t'"
        by auto
      with Continue False r Suc.IH [of s' t'] show ?thesis
        by simp
    qed
  qed
qed

lemma initialState_same:
  "sameButTime (initialState (rt\<lparr>dateNow := c\<rparr>) a) (initialState (rt\<lparr>dateNow := d\<rparr>) a)"
  by (simp add: initialState_def sameButTime_def Let_def pushStep_def stepCore_def successStep_def
      split: option.splits)

lemma finalState_same:
  "sameButTime (finalState (rt\<lparr>dateNow := c\<rparr>) a) (finalState (rt\<lparr>dateNow := d\<rparr>) a)"
proof -
  note i = initialState_same [where rt = rt and c = c and a = a and d = d]
  then have "raised (initialState (rt\<lparr>dateNow := c\<rparr>) a) =
      raised (initialState (rt\<lparr>dateNow := d\<rparr>) a)"
    by (simp add: sameButTime_def)
  with i loop_same [OF i, where k = 100 and rt = rt and c = c and a = a and d = d]
  show ?thesis
    by (simp add: finalState_def Let_def)
qed

text \<open>
  Claim C6. The engine is a function of its arguments and of the runtime. Two runs
  on the same nodes, edges, start inputs, lookups and callback, with the same
  generation function, can differ only in what they read from the clock, and that
  reaches only the identifier and the time stamp of the log and the latencies of
  the steps. Either both runs throw, and they throw the same, or both return a
  log: then the steps of the two logs have the same node identifiers, names,
  statuses and outputs, in the same order, and the logs have the same status and
  outputs.
\<close>

theorem steps_do_not_depend_on_clock:
  "map_sum id logCore (executeWorkflowEngine (rt\<lparr>dateNow := c\<rparr>) a) =
   map_sum id logCore (executeWorkflowEngine (rt\<lparr>dateNow := d\<rparr>) a)"
  using finalState_same [where rt = rt and c = c and a = a and d = d]
  by (simp add: executeWorkflowEngine_def sameButTime_def logCore_def split: option.splits)


end
